theory Spec2Isabelle
  imports Complex_Main "HOL-Library.Sublist"
begin

section \<open>JavaScript strings\<close>

text \<open>
  A JavaScript string is a sequence of UTF-16 code units; \<open>length\<close>, indexing, \<open>slice\<close>,
  \<open>indexOf\<close> and the regular expressions of the sources (none of them has the \<open>u\<close> flag)
  all count code units. A string is modelled as the list of its code units, each a natural
  number. \<open>js\<close> writes an ASCII literal.
\<close>

type_synonym jsstring = "nat list"

definition js :: "string \<Rightarrow> jsstring" where
  "js s = map of_char s"

text \<open>\<open>s.slice(a, b)\<close> for non-negative \<open>a\<close>, \<open>b\<close>: both are clamped to the length, and the
  result is empty when \<open>b \<le> a\<close>.\<close>

definition slice :: "jsstring \<Rightarrow> nat \<Rightarrow> nat \<Rightarrow> jsstring" where
  "slice s a b = take (b - a) (drop a s)"

text \<open>The class \<open>\w\<close> is \<open>[A-Za-z0-9_]\<close>.\<close>

definition isWordChar :: "nat \<Rightarrow> bool" where
  "isWordChar c \<longleftrightarrow> (48 \<le> c \<and> c \<le> 57) \<or> (65 \<le> c \<and> c \<le> 90) \<or> c = 95 \<or> (97 \<le> c \<and> c \<le> 122)"

text \<open>The class \<open>\s\<close>: ECMAScript white space and line terminators.\<close>

definition isSpace :: "nat \<Rightarrow> bool" where
  "isSpace c \<longleftrightarrow> (9 \<le> c \<and> c \<le> 13) \<or> c = 32 \<or> c = 160 \<or> c = 5760 \<or> (8192 \<le> c \<and> c \<le> 8202)
     \<or> c = 8232 \<or> c = 8233 \<or> c = 8239 \<or> c = 8287 \<or> c = 12288 \<or> c = 65279"

section \<open>Processor: word splitting\<close>

text \<open>
  \<^verbatim>\<open>const regex = /\w+(?:[-_]\w+)*|\S/g;\<close>
  \<^verbatim>\<open>while ((match = regex.exec(text)) !== null)\<close>
  \<^verbatim>\<open>  words.push([match[0], match.index, match.index + match[0].length]);\<close>

  \<open>groupExt\<close> is what \<open>(?:[-_]\w+)*\<close> matches at the head of its argument: the quantifiers
  are greedy and nothing follows the group, so each iteration takes a hyphen or underscore and
  the longest run of word characters after it, and the iteration stops where that fails.
\<close>

function groupExt :: "jsstring \<Rightarrow> jsstring" where
  "groupExt [] = []"
| "groupExt [d] = []"
| "groupExt (d # e # rest) =
     (if (d = 45 \<or> d = 95) \<and> isWordChar e
      then (let r = takeWhile isWordChar (e # rest)
            in d # r @ groupExt (drop (length r) (e # rest)))
      else [])"
  by pat_completeness auto
termination
  by (relation "measure length") auto

text \<open>What the first alternative \<open>\w+(?:[-_]\w+)*\<close> matches at the head of its argument.\<close>

definition wordMatch :: "jsstring \<Rightarrow> jsstring" where
  "wordMatch s = (let r = takeWhile isWordChar s in r @ groupExt (drop (length r) s))"

lemma wordMatch_nonempty: "isWordChar c \<Longrightarrow> 0 < length (wordMatch (c # cs))"
  by (simp add: wordMatch_def Let_def)

text \<open>The \<open>exec\<close> loop from index \<open>i\<close>, where \<open>s\<close> is the rest of the text from \<open>i\<close> on.\<close>

function splitWordsFrom :: "nat \<Rightarrow> jsstring \<Rightarrow> (jsstring \<times> nat \<times> nat) list" where
  "splitWordsFrom i [] = []"
| "splitWordsFrom i (c # cs) =
     (if isWordChar c
      then (let w = wordMatch (c # cs)
            in (w, i, i + length w) # splitWordsFrom (i + length w) (drop (length w) (c # cs)))
      else if \<not> isSpace c
      then ([c], i, i + 1) # splitWordsFrom (i + 1) cs
      else splitWordsFrom (i + 1) cs)"
  by pat_completeness auto
termination
proof (relation "measure (\<lambda>(i, s). length s)", goal_cases)
  case 1
  show ?case by simp
next
  case (2 i c cs w)
  then show ?case using wordMatch_nonempty [of c cs] by simp
next
  case 3
  then show ?case by simp
next
  case 4
  then show ?case by simp
qed

definition splitWords :: "jsstring \<Rightarrow> (jsstring \<times> nat \<times> nat) list" where
  "splitWords text = splitWordsFrom 0 text"

text \<open>Each triple starts at or after the end of the one before it.\<close>

fun wordsOrdered :: "(jsstring \<times> nat \<times> nat) list \<Rightarrow> bool" where
  "wordsOrdered [] = True"
| "wordsOrdered [x] = True"
| "wordsOrdered (x # y # r) = (snd (snd x) \<le> fst (snd y) \<and> wordsOrdered (y # r))"

subsection \<open>The words are ordered, disjoint slices of the text\<close>

lemma groupExt_prefix: "prefix (groupExt s) s"
proof (induction s rule: groupExt.induct)
  case (3 d e rest)
  show ?case
  proof (cases "(d = 45 \<or> d = 95) \<and> isWordChar e")
    case True
    define r where "r = takeWhile isWordChar (e # rest)"
    have ih: "prefix (groupExt (drop (length r) (e # rest))) (drop (length r) (e # rest))"
      using 3 True r_def by simp
    have "e # rest = r @ drop (length r) (e # rest)"
      unfolding r_def by (metis append_take_drop_id takeWhile_eq_take)
    then have "prefix (r @ groupExt (drop (length r) (e # rest))) (e # rest)"
      using ih by (metis same_prefix_prefix)
    then show ?thesis using True by (simp add: Let_def r_def)
  next
    case False
    then show ?thesis by auto
  qed
qed simp_all

lemma wordMatch_prefix: "prefix (wordMatch s) s"
proof -
  define r where "r = takeWhile isWordChar s"
  have "s = r @ drop (length r) s"
    unfolding r_def by (metis append_take_drop_id takeWhile_eq_take)
  then have "prefix (r @ groupExt (drop (length r) s)) s"
    using groupExt_prefix [of "drop (length r) s"] by (metis same_prefix_prefix)
  then show ?thesis by (simp add: wordMatch_def Let_def r_def)
qed

lemma wordMatch_take: "wordMatch s = take (length (wordMatch s)) s"
  using wordMatch_prefix [of s] by (metis append_eq_conv_conj prefix_def)

lemma wordMatch_length: "length (wordMatch s) \<le> length s"
  using wordMatch_prefix [of s] by (simp add: prefix_length_le)

lemma splitWordsFrom_spans:
  "(w, a, b) \<in> set (splitWordsFrom i s) \<Longrightarrow>
     i \<le> a \<and> a < b \<and> b \<le> i + length s \<and> w = take (b - a) (drop (a - i) s)"
proof (induction i s rule: splitWordsFrom.induct)
  case (1 i)
  then show ?case by simp
next
  case (2 i c cs)
  show ?case
  proof (cases "isWordChar c")
    case True
    define m where "m = wordMatch (c # cs)"
    have mpos: "0 < length m" using True wordMatch_nonempty [of c cs] m_def by simp
    have mle: "length m \<le> length (c # cs)" using wordMatch_length [of "c # cs"] m_def by simp
    have mtk: "m = take (length m) (c # cs)" using wordMatch_take [of "c # cs"] m_def by simp
    from "2.prems" True have
      "(w, a, b) = (m, i, i + length m) \<or>
       (w, a, b) \<in> set (splitWordsFrom (i + length m) (drop (length m) (c # cs)))"
      by (simp add: Let_def m_def)
    then show ?thesis
    proof
      assume "(w, a, b) = (m, i, i + length m)"
      then show ?thesis using mpos mle mtk by auto
    next
      assume h: "(w, a, b) \<in> set (splitWordsFrom (i + length m) (drop (length m) (c # cs)))"
      have ih: "i + length m \<le> a \<and> a < b \<and> b \<le> i + length m + length (drop (length m) (c # cs))
          \<and> w = take (b - a) (drop (a - (i + length m)) (drop (length m) (c # cs)))"
        using "2.IH"(1) [OF True m_def [symmetric, unfolded m_def] ] h m_def by simp
      then have "drop (a - (i + length m)) (drop (length m) (c # cs)) = drop (a - i) (c # cs)"
        by (simp add: add.commute)
      then show ?thesis using ih mle by auto
    qed
  next
    case False
    note nw = False
    show ?thesis
    proof (cases "isSpace c")
      case True
      then have h: "(w, a, b) \<in> set (splitWordsFrom (i + 1) cs)" using "2.prems" nw by simp
      have ih: "i + 1 \<le> a \<and> a < b \<and> b \<le> i + 1 + length cs \<and> w = take (b - a) (drop (a - (i + 1)) cs)"
        using "2.IH"(3) nw True h by simp
      then have "drop (a - (i + 1)) cs = drop (a - i) (c # cs)"
      proof -
        have "a - i = Suc (a - (i + 1))" using ih by arith
        then show ?thesis by simp
      qed
      then show ?thesis using ih by auto
    next
      case False
      then have "(w, a, b) = ([c], i, i + 1) \<or> (w, a, b) \<in> set (splitWordsFrom (i + 1) cs)"
        using "2.prems" nw by simp
      then show ?thesis
      proof
        assume "(w, a, b) = ([c], i, i + 1)"
        then show ?thesis by auto
      next
        assume h: "(w, a, b) \<in> set (splitWordsFrom (i + 1) cs)"
        have ih: "i + 1 \<le> a \<and> a < b \<and> b \<le> i + 1 + length cs \<and> w = take (b - a) (drop (a - (i + 1)) cs)"
          using "2.IH"(2) nw False h by simp
        then have "drop (a - (i + 1)) cs = drop (a - i) (c # cs)"
        proof -
        have "a - i = Suc (a - (i + 1))" using ih by arith
        then show ?thesis by simp
      qed
        then show ?thesis using ih by auto
      qed
    qed
  qed
qed


lemma wordsOrdered_Cons:
  "wordsOrdered ys \<Longrightarrow> (\<forall>(w, a, b) \<in> set ys. e \<le> a) \<Longrightarrow> wordsOrdered ((w0, a0, e) # ys)"
  by (cases ys) auto

lemma splitWordsFrom_ordered: "wordsOrdered (splitWordsFrom i s)"
proof (induction i s rule: splitWordsFrom.induct)
  case (1 i)
  show ?case by simp
next
  case (2 i c cs)
  show ?case
  proof (cases "isWordChar c")
    case True
    define m where "m = wordMatch (c # cs)"
    define ys where "ys = splitWordsFrom (i + length m) (drop (length m) (c # cs))"
    have o: "wordsOrdered ys" using "2.IH"(1) [OF True refl] by (simp add: ys_def m_def)
    have "\<forall>(w, a, b) \<in> set ys. i + length m \<le> a"
      using splitWordsFrom_spans unfolding ys_def by blast
    then have "wordsOrdered ((m, i, i + length m) # ys)" using o wordsOrdered_Cons by blast
    then show ?thesis using True by (simp add: Let_def m_def ys_def)
  next
    case False
    note nw = False
    show ?thesis
    proof (cases "isSpace c")
      case True
      then show ?thesis using "2.IH"(3) nw by simp
    next
      case False
      have o: "wordsOrdered (splitWordsFrom (i + 1) cs)" using "2.IH"(2) nw False by simp
      have "\<forall>(w, a, b) \<in> set (splitWordsFrom (i + 1) cs). i + 1 \<le> a"
        using splitWordsFrom_spans by blast
      then have "wordsOrdered (([c], i, i + 1) # splitWordsFrom (i + 1) cs)"
        using o wordsOrdered_Cons by blast
      then show ?thesis using nw False by simp
    qed
  qed
qed

text \<open>
  Claim C10. For every input string, the triples \<open>(word, start, end)\<close> that \<open>splitWords\<close>
  returns satisfy \<open>0 \<le> start < end \<le> length text\<close> and \<open>word = text.slice(start, end)\<close>, and
  each triple starts at or after the end of the one before it.
\<close>

theorem splitWords_ordered_disjoint:
  "(\<forall>(w, a, b) \<in> set (splitWords text). 0 \<le> a \<and> a < b \<and> b \<le> length text \<and> w = slice text a b)
   \<and> wordsOrdered (splitWords text)"
proof -
  have "\<And>w a b. (w, a, b) \<in> set (splitWords text) \<Longrightarrow> a < b \<and> b \<le> length text \<and> w = slice text a b"
    using splitWordsFrom_spans [of _ _ _ 0 "text"] by (simp add: splitWords_def slice_def)
  then show ?thesis using splitWordsFrom_ordered by (auto simp: splitWords_def)
qed

lemma splitWords_example:
  "splitWords (js ''Hi, a-b'') = [(js ''Hi'', 0, 2), (js '','', 2, 3), (js ''a-b'', 4, 7)]"
  by (simp add: splitWords_def js_def isWordChar_def isSpace_def wordMatch_def)

theorem splitWords_ordered_disjoint_witness:
  "splitWords (js ''Hi, a-b'') = [(js ''Hi'', 0, 2), (js '','', 2, 3), (js ''a-b'', 4, 7)]
   \<and> (4::nat) < 7 \<and> 7 \<le> length (js ''Hi, a-b'') \<and> js ''a-b'' = slice (js ''Hi, a-b'') 4 7
   \<and> wordsOrdered (splitWords (js ''Hi, a-b''))"
  using splitWords_ordered_disjoint [of "js ''Hi, a-b''"] splitWords_example by simp

section \<open>Tokenizer\<close>

text \<open>\<open>new TextEncoder().encode(s)\<close>: UTF-8 of a UTF-16 string; a surrogate pair is one code
  point of four bytes, a lone surrogate becomes U+FFFD. The result is a \<open>Uint8Array\<close>, whose
  elements are stored modulo 256.\<close>

definition utf8cp :: "nat \<Rightarrow> nat list" where
  "utf8cp cp =
     (if cp < 128 then [cp]
      else if cp < 2048 then [(192 + cp div 64) mod 256, 128 + cp mod 64]
      else if cp < 65536 then [(224 + cp div 4096) mod 256, 128 + (cp div 64) mod 64, 128 + cp mod 64]
      else [(240 + cp div 262144) mod 256, 128 + (cp div 4096) mod 64, 128 + (cp div 64) mod 64,
            128 + cp mod 64])"

definition isHighSurrogate :: "nat \<Rightarrow> bool" where
  "isHighSurrogate c \<longleftrightarrow> 55296 \<le> c \<and> c < 56320"

definition isLowSurrogate :: "nat \<Rightarrow> bool" where
  "isLowSurrogate c \<longleftrightarrow> 56320 \<le> c \<and> c < 57344"

fun utf8encode :: "jsstring \<Rightarrow> nat list" where
  "utf8encode [] = []"
| "utf8encode [c] =
     (if isHighSurrogate c \<or> isLowSurrogate c then [239, 191, 189] else utf8cp c)"
| "utf8encode (c # d # rest) =
     (if isHighSurrogate c \<and> isLowSurrogate d
      then utf8cp (65536 + (c - 55296) * 1024 + (d - 56320)) @ utf8encode rest
      else if isHighSurrogate c \<or> isLowSurrogate c
      then [239, 191, 189] @ utf8encode (d # rest)
      else utf8cp c @ utf8encode (d # rest))"


subsection \<open>The tokenizer description (tokenizer.json)\<close>

text \<open>The fields of the downloaded JSON that the constructors read. An absent or \<open>null\<close>
  field is \<open>None\<close>; a flag compared with \<open>=== true\<close> is a \<open>bool\<close>.\<close>

datatype vocab_json =
    VocabArray "(jsstring \<times> real) list"   \<comment> \<open>Unigram: \<open>[[piece, score], ...]\<close>\<close>
  | VocabObject "(jsstring \<times> int) list"   \<comment> \<open>BPE: \<open>{token: id, ...}\<close>, in key order\<close>

datatype merge_json = MergeString jsstring | MergeArray "jsstring list"

record model_json =
  m_type :: "jsstring option"
  m_vocab :: "vocab_json option"
  m_merges :: "merge_json list option"
  m_unk_id :: "int option"
  m_byte_fallback :: bool

record pretok_json =
  p_type :: "jsstring option"
  p_add_prefix_space :: bool

record pre_tokenizer_json =
  pt_type :: "jsstring option"
  pt_add_prefix_space :: bool
  pt_pretokenizers :: "pretok_json list option"

record tokenizer_json =
  t_model :: "model_json option"
  t_added_tokens :: "(jsstring \<times> int) list option"
  t_pre_tokenizer :: "pre_tokenizer_json option"

datatype js_error = Error string | TypeError string

subsection \<open>Unigram (SentencePiece) tokenizer\<close>

text \<open>The class keeps two maps, \<open>vocab\<close> (piece to id) and \<open>scores\<close> (piece to log
  probability); the constructor sets both in the same statement block, so they have the same
  keys, and \<open>u_pieces\<close> holds them as one map from a piece to its id and score.\<close>

record unigram =
  u_pieces :: "jsstring \<rightharpoonup> (int \<times> real)"
  u_addedTokens :: "jsstring \<rightharpoonup> int"
  u_byteTokens :: "nat \<rightharpoonup> int"
  u_unkTokenId :: int
  u_clsTokenId :: int
  u_sepTokenId :: int
  u_maxPieceLength :: nat

definition hexVal :: "nat \<Rightarrow> nat option" where
  "hexVal c =
     (if 48 \<le> c \<and> c \<le> 57 then Some (c - 48)
      else if 65 \<le> c \<and> c \<le> 70 then Some (c - 55)
      else if 97 \<le> c \<and> c \<le> 102 then Some (c - 87)
      else None)"

text \<open>\<^verbatim>\<open>/^<0x([0-9A-Fa-f]{2})>$/.exec(piece)\<close> and \<open>Number.parseInt(byteMatch[1], 16)\<close>.\<close>

fun byteMatch :: "jsstring \<Rightarrow> nat option" where
  "byteMatch [a, b, c, h1, h2, d] =
     (if a = 60 \<and> b = 48 \<and> c = 120 \<and> d = 62
      then (case (hexVal h1, hexVal h2) of
              (Some x, Some y) \<Rightarrow> Some (16 * x + y)
            | _ \<Rightarrow> None)
      else None)"
| "byteMatch _ = None"

text \<open>The loop over \<open>model.vocab\<close>; \<open>idx\<close> is the index of the entry.\<close>

fun unigramVocab ::
  "nat \<Rightarrow> (jsstring \<times> real) list \<Rightarrow> (jsstring \<rightharpoonup> (int \<times> real)) \<times> (nat \<rightharpoonup> int) \<times> nat
     \<Rightarrow> (jsstring \<rightharpoonup> (int \<times> real)) \<times> (nat \<rightharpoonup> int) \<times> nat" where
  "unigramVocab idx [] acc = acc"
| "unigramVocab idx ((piece, score) # rest) (pieces, bt, mx) =
     (let (pieces', mx') =
            (if pieces piece = None
             then (pieces(piece \<mapsto> (int idx, score)), if length piece > mx then length piece else mx)
             else (pieces, mx));
          bt' = (case byteMatch piece of Some v \<Rightarrow> bt(v \<mapsto> int idx) | None \<Rightarrow> bt)
      in unigramVocab (idx + 1) rest (pieces', bt', mx'))"

text \<open>\<open>for (const at of added_tokens) map.set(at.content, at.id)\<close>: a later entry overwrites.\<close>

fun setAll :: "('k \<times> 'v) list \<Rightarrow> ('k \<rightharpoonup> 'v) \<Rightarrow> ('k \<rightharpoonup> 'v)" where
  "setAll [] m = m"
| "setAll ((k, v) # rest) m = setAll rest (m(k \<mapsto> v))"

text \<open>\<open>a ?? b\<close>\<close>

definition orElse :: "'a option \<Rightarrow> 'a option \<Rightarrow> 'a option" where
  "orElse a b = (case a of Some x \<Rightarrow> Some x | None \<Rightarrow> b)"

definition orDefault :: "'a option \<Rightarrow> 'a \<Rightarrow> 'a" where
  "orDefault a d = (case a of Some x \<Rightarrow> x | None \<Rightarrow> d)"

definition newUnigramTokenizer :: "tokenizer_json \<Rightarrow> js_error + unigram" where
  "newUnigramTokenizer tj =
     (case t_model tj of
        None \<Rightarrow> Inl (TypeError ''model is undefined'')
      | Some model \<Rightarrow>
          (let (pieces, bt, mx) =
                 (case m_vocab model of
                    Some (VocabArray entries) \<Rightarrow> unigramVocab 0 entries (Map.empty, Map.empty, 0)
                  | _ \<Rightarrow> (Map.empty, Map.empty, 0));
               added = (case t_added_tokens tj of Some ats \<Rightarrow> setAll ats Map.empty | None \<Rightarrow> Map.empty);
               vocabGet = (\<lambda>p. map_option fst (pieces p))
           in Inr \<lparr> u_pieces = pieces, u_addedTokens = added, u_byteTokens = bt,
                u_unkTokenId =
                  orDefault (orElse (m_unk_id model) (orElse (added (js ''<unk>'')) (vocabGet (js ''<unk>'')))) 0,
                u_clsTokenId =
                  orDefault (orElse (added (js ''[CLS]'')) (orElse (added (js ''<s>'')) (vocabGet (js ''[CLS]'')))) 1,
                u_sepTokenId =
                  orDefault (orElse (added (js ''[SEP]'')) (orElse (added (js ''</s>'')) (vocabGet (js ''[SEP]'')))) 2,
                u_maxPieceLength = mx \<rparr>))"

definition unigram_getTokenId :: "unigram \<Rightarrow> jsstring \<Rightarrow> int" where
  "unigram_getTokenId tk token =
     orDefault (orElse (u_addedTokens tk token) (map_option fst (u_pieces tk token))) (u_unkTokenId tk)"

text \<open>One slot of the Viterbi table. The score \<open>-Infinity\<close> is \<open>None\<close>.\<close>

record vslot =
  v_score :: "real option"
  v_prev :: nat
  v_id :: int

text \<open>\<open>a + b\<close> and \<open>a > b\<close> where \<open>a\<close> may be \<open>-Infinity\<close> and \<open>b\<close> is finite or
  \<open>-Infinity\<close>.\<close>

definition scoreAdd :: "real option \<Rightarrow> real \<Rightarrow> real option" where
  "scoreAdd a b = map_option (\<lambda>x. x + b) a"

fun scoreGt :: "real option \<Rightarrow> real option \<Rightarrow> bool" where
  "scoreGt None _ = False"
| "scoreGt (Some a) None = True"
| "scoreGt (Some a) (Some b) = (a > b)"

text \<open>The inner loop \<open>for (let len = 1; len <= maxLen; len++)\<close> at position \<open>i\<close>.\<close>

definition viterbiPiece :: "unigram \<Rightarrow> jsstring \<Rightarrow> nat \<Rightarrow> nat \<Rightarrow> vslot list \<Rightarrow> vslot list" where
  "viterbiPiece tk text i len best =
     (case u_pieces tk (slice text i (i + len)) of
        Some (pid, score) \<Rightarrow>
          (let newScore = scoreAdd (v_score (best ! i)) score
           in if scoreGt newScore (v_score (best ! (i + len)))
              then best[i + len := \<lparr> v_score = newScore, v_prev = i, v_id = pid \<rparr>]
              else best)
      | None \<Rightarrow> best)"

text \<open>The byte fallback at position \<open>i\<close>. \<open>char\<close> is the single code unit \<open>text[i]\<close>, so
  \<open>charLen = char.length\<close> is 1.\<close>

definition viterbiFallback :: "unigram \<Rightarrow> jsstring \<Rightarrow> nat \<Rightarrow> vslot list \<Rightarrow> vslot list" where
  "viterbiFallback tk text i best =
     (if v_score (best ! (i + 1)) = None
      then (let char = [text ! i];
                byteIds = map (u_byteTokens tk) (utf8encode char)
            in if list_all (\<lambda>x. x \<noteq> None) byteIds
               then (let charLen = length char;
                         fallbackScore = scoreAdd (v_score (best ! i)) (- 100)
                     in if scoreGt fallbackScore (v_score (best ! (i + charLen)))
                        then best[i + charLen := \<lparr> v_score = fallbackScore, v_prev = i, v_id = - 2 \<rparr>]
                        else best)
               else best[i + 1 := \<lparr> v_score = scoreAdd (v_score (best ! i)) (- 200), v_prev = i,
                                      v_id = u_unkTokenId tk \<rparr>])
      else best)"

text \<open>One round of the outer loop \<open>for (let i = 0; i < n; i++)\<close>.\<close>

definition viterbiStep :: "unigram \<Rightarrow> jsstring \<Rightarrow> nat \<Rightarrow> vslot list \<Rightarrow> vslot list" where
  "viterbiStep tk text i best =
     (if v_score (best ! i) = None \<and> i > 0 then best
      else (let n = length text;
                maxLen = min (u_maxPieceLength tk) (n - i);
                best1 = fold (viterbiPiece tk text i) [1 ..< maxLen + 1] best
            in viterbiFallback tk text i best1))"

definition viterbiForward :: "unigram \<Rightarrow> jsstring \<Rightarrow> vslot list" where
  "viterbiForward tk text =
     (let n = length text;
          best0 = \<lparr> v_score = Some 0, v_prev = 0, v_id = - 1 \<rparr>
                  # replicate n \<lparr> v_score = None, v_prev = 0, v_id = u_unkTokenId tk \<rparr>
      in fold (viterbiStep tk text) [0 ..< n] best0)"

text \<open>The backtracking loop \<open>while (pos > 0)\<close>. \<open>tokens.unshift\<close> puts a token at the front; in
  the byte-fallback branch it runs once per byte, in byte order. Reading \<open>best[pos]\<close> outside the
  table would be a \<open>TypeError\<close> on \<open>entry.id\<close>. The value \<open>None\<close> is a loop that does not end.\<close>

partial_function (option) viterbiBack ::
  "unigram \<Rightarrow> jsstring \<Rightarrow> vslot list \<Rightarrow> nat \<Rightarrow> int list \<Rightarrow> (js_error + int list) option" where
  "viterbiBack tk text best pos tokens =
     (if pos > 0
      then (if pos < length best
            then (let entry = best ! pos;
                      tokens' =
                        (if v_id entry = - 2
                         then fold (\<lambda>b toks. orDefault (u_byteTokens tk b) (u_unkTokenId tk) # toks)
                                (utf8encode (slice text (v_prev entry) pos)) tokens
                         else v_id entry # tokens)
                  in viterbiBack tk text best (v_prev entry) tokens')
            else Some (Inl (TypeError ''entry is undefined'')))
      else Some (Inr tokens))"

definition viterbi :: "unigram \<Rightarrow> jsstring \<Rightarrow> (js_error + int list) option" where
  "viterbi tk text =
     (let n = length text
      in if n = 0 then Some (Inr [])
         else viterbiBack tk text (viterbiForward tk text) n [])"

text \<open>\<open>normalized.replaceAll(' ', '\u2581')\<close>: U+2581 is code unit 9601.\<close>

definition replaceSpaces :: "jsstring \<Rightarrow> jsstring" where
  "replaceSpaces s = map (\<lambda>c. if c = 32 then 9601 else c) s"

text \<open>\<open>word.normalize('NFKC')\<close> is the Unicode library's; it is the parameter \<open>nfkc\<close>.\<close>

definition unigram_encodeWord ::
  "(jsstring \<Rightarrow> jsstring) \<Rightarrow> unigram \<Rightarrow> jsstring \<Rightarrow> (js_error + int list) option" where
  "unigram_encodeWord nfkc tk word =
     (case u_addedTokens tk word of
        Some i \<Rightarrow> Some (Inr [i])
      | None \<Rightarrow>
          (let normalized = nfkc word;
               input = 9601 # replaceSpaces normalized
           in viterbi tk input))"


subsection \<open>Byte-level BPE tokenizer\<close>

text \<open>\<open>String.fromCodePoint\<close>\<close>

definition fromCodePoint :: "nat \<Rightarrow> jsstring" where
  "fromCodePoint c =
     (if c < 65536 then [c]
      else [55296 + (c - 65536) div 1024, 56320 + (c - 65536) mod 1024])"

text \<open>\<open>buildByteEncoder\<close>: the printable bytes stand for themselves, every other byte \<open>b\<close>
  gets the code point \<open>256 + n\<close>, \<open>n\<close> counting the bytes moved so far.\<close>

definition printableBytes :: "nat list" where
  "printableBytes = [33 ..< 127] @ [161 ..< 173] @ [174 ..< 256]"

definition byteEncoderStep :: "nat \<Rightarrow> nat list \<times> nat list \<times> nat \<Rightarrow> nat list \<times> nat list \<times> nat" where
  "byteEncoderStep b acc =
     (case acc of (bs, cs, n) \<Rightarrow>
        if b \<notin> set bs then (bs @ [b], cs @ [256 + n], n + 1) else (bs, cs, n))"

definition buildByteEncoder :: "nat \<rightharpoonup> jsstring" where
  "buildByteEncoder =
     (case fold byteEncoderStep [0 ..< 256] (printableBytes, printableBytes, 0) of
        (bs, cs, n) \<Rightarrow> setAll (zip bs (map fromCodePoint cs)) Map.empty)"

record bpe =
  b_vocab :: "jsstring \<rightharpoonup> int"
  b_mergeRanks :: "jsstring \<rightharpoonup> nat"
  b_addedTokens :: "jsstring \<rightharpoonup> int"
  b_byteEncoder :: "nat \<rightharpoonup> jsstring"
  b_unkTokenId :: int
  b_clsTokenId :: int
  b_sepTokenId :: int
  b_isByteLevelBPE :: bool
  b_addPrefixSpace :: bool

text \<open>\<open>parts.join(sep)\<close>\<close>

fun joinWith :: "jsstring \<Rightarrow> jsstring list \<Rightarrow> jsstring" where
  "joinWith sep [] = []"
| "joinWith sep [x] = x"
| "joinWith sep (x # y # rest) = x @ sep @ joinWith sep (y # rest)"

fun bpeMerges :: "nat \<Rightarrow> merge_json list \<Rightarrow> (jsstring \<rightharpoonup> nat) \<Rightarrow> (jsstring \<rightharpoonup> nat)" where
  "bpeMerges i [] m = m"
| "bpeMerges i (MergeString s # rest) m = bpeMerges (i + 1) rest (m(s \<mapsto> i))"
| "bpeMerges i (MergeArray parts # rest) m = bpeMerges (i + 1) rest (m(joinWith [32] parts \<mapsto> i))"

definition isByteLevelType :: "jsstring option \<Rightarrow> bool" where
  "isByteLevelType t \<longleftrightarrow> t = Some (js ''ByteLevel'')"

text \<open>The constructor reads \<open>model.vocab\<close> first, a \<open>TypeError\<close> when the description has no
  \<open>model\<close>. It reads \<open>model.vocab\<close> with \<open>Object.entries\<close> as an object from token to id. Given
  the array of a Unigram vocabulary instead, \<open>Object.entries\<close> would make the indices \<open>"0"\<close>,
  \<open>"1"\<close>, ... the keys and the \<open>[piece, score]\<close> pairs the values; those are not ids and
  \<open>b_vocab\<close> cannot hold them, so the map is left empty here. The constructor throws in neither
  case; see \<open>vocabShape\<close> below for the statements about the ids.\<close>

definition newBPETokenizer :: "tokenizer_json \<Rightarrow> js_error + bpe" where
  "newBPETokenizer tj =
     (case t_model tj of
        None \<Rightarrow> Inl (TypeError ''model is undefined'')
      | Some model \<Rightarrow>
          (let vocab0 = (case m_vocab model of
                           Some (VocabObject entries) \<Rightarrow> setAll entries Map.empty
                         | _ \<Rightarrow> Map.empty);
               ranks = (case m_merges model of Some ms \<Rightarrow> bpeMerges 0 ms Map.empty | None \<Rightarrow> Map.empty);
               ats = (case t_added_tokens tj of Some l \<Rightarrow> l | None \<Rightarrow> []);
               added = setAll ats Map.empty;
               vocab = setAll ats vocab0;
               pre = t_pre_tokenizer tj;
               subs = (case pre of
                         Some p \<Rightarrow> (case pt_pretokenizers p of Some l \<Rightarrow> l | None \<Rightarrow> [])
                       | None \<Rightarrow> []);
               byteLevel =
                 ((case pre of Some p \<Rightarrow> isByteLevelType (pt_type p) | None \<Rightarrow> False)
                  \<or> list_ex (\<lambda>p. isByteLevelType (p_type p)) subs
                  \<or> m_byte_fallback model);
               prefixSpace =
                 ((case pre of Some p \<Rightarrow> pt_add_prefix_space p | None \<Rightarrow> False)
                  \<or> list_ex (\<lambda>p. isByteLevelType (p_type p) \<and> p_add_prefix_space p) subs
                  \<or> False)
           in Inr \<lparr> b_vocab = vocab, b_mergeRanks = ranks, b_addedTokens = added,
                    b_byteEncoder = buildByteEncoder,
                    b_unkTokenId = orDefault (orElse (vocab (js ''[UNK]'')) (vocab (js ''<unk>''))) 0,
                    b_clsTokenId = orDefault (orElse (vocab (js ''[CLS]'')) (vocab (js ''<s>''))) 1,
                    b_sepTokenId = orDefault (orElse (vocab (js ''[SEP]'')) (vocab (js ''</s>''))) 2,
                    b_isByteLevelBPE = byteLevel, b_addPrefixSpace = prefixSpace \<rparr>))"

definition bpe_getTokenId :: "bpe \<Rightarrow> jsstring \<Rightarrow> int" where
  "bpe_getTokenId tk token =
     orDefault (orElse (b_addedTokens tk token) (b_vocab tk token)) (b_unkTokenId tk)"

text \<open>\<open>findBestMergePair\<close>: the adjacent pair of lowest rank, the first one on a tie;
  \<open>bestRank = Infinity\<close> is \<open>None\<close>.\<close>

fun findBestFrom :: "bpe \<Rightarrow> jsstring list \<Rightarrow> (jsstring \<times> nat) option \<Rightarrow> (jsstring \<times> nat) option" where
  "findBestFrom tk (x # y # rest) best =
     (let pair = x @ [32] @ y
      in case b_mergeRanks tk pair of
           Some rank \<Rightarrow>
             (if (case best of None \<Rightarrow> True | Some (_, bestRank) \<Rightarrow> rank < bestRank)
              then findBestFrom tk (y # rest) (Some (pair, rank))
              else findBestFrom tk (y # rest) best)
         | None \<Rightarrow> findBestFrom tk (y # rest) best)"
| "findBestFrom tk _ best = best"

definition findBestMergePair :: "bpe \<Rightarrow> jsstring list \<Rightarrow> jsstring option" where
  "findBestMergePair tk symbols = map_option fst (findBestFrom tk symbols None)"

text \<open>\<open>s.split(' ')\<close>\<close>

fun splitOn :: "nat \<Rightarrow> jsstring \<Rightarrow> jsstring list" where
  "splitOn c [] = [[]]"
| "splitOn c (x # xs) =
     (if x = c then [] # splitOn c xs
      else (case splitOn c xs of p # ps \<Rightarrow> (x # p) # ps | [] \<Rightarrow> [[x]]))"

text \<open>The inner \<open>while (i < symbols.length)\<close> pass that applies one merge.\<close>

fun mergePass :: "jsstring \<Rightarrow> jsstring \<Rightarrow> jsstring list \<Rightarrow> jsstring list" where
  "mergePass a b (x # y # rest) =
     (if x = a \<and> y = b then (a @ b) # mergePass a b rest else x # mergePass a b (y # rest))"
| "mergePass a b xs = xs"

text \<open>\<open>const [a, b] = bestPair.split(' ')\<close>: with fewer than two parts \<open>b\<close> is \<open>undefined\<close>, no
  symbol equals it and the pass copies the symbols.\<close>

definition applyMerge :: "jsstring \<Rightarrow> jsstring list \<Rightarrow> jsstring list" where
  "applyMerge bestPair symbols =
     (case splitOn 32 bestPair of
        a # b # _ \<Rightarrow> mergePass a b symbols
      | _ \<Rightarrow> symbols)"

text \<open>The loop \<open>while (bestPair !== null)\<close> of \<open>applyBPE\<close>; \<open>None\<close> is a loop that does not end.\<close>

partial_function (option) bpeLoop :: "bpe \<Rightarrow> jsstring list \<Rightarrow> jsstring option \<Rightarrow> jsstring list option" where
  "bpeLoop tk symbols bestPair =
     (case bestPair of
        None \<Rightarrow> Some symbols
      | Some p \<Rightarrow>
          (let newSymbols = applyMerge p symbols;
               bestPair' = findBestMergePair tk newSymbols
           in if length newSymbols \<le> 1 then Some newSymbols
              else bpeLoop tk newSymbols bestPair'))"

definition applyBPE :: "bpe \<Rightarrow> jsstring list \<Rightarrow> jsstring list option" where
  "applyBPE tk symbols =
     (if length symbols \<le> 1 then Some symbols
      else bpeLoop tk symbols (findBestMergePair tk symbols))"

definition encodeByteLevelBPE :: "bpe \<Rightarrow> jsstring \<Rightarrow> int list option" where
  "encodeByteLevelBPE tk word =
     (let toEncode = (if b_addPrefixSpace tk then 32 # word else word);
          bytes = utf8encode toEncode;
          symbols = map (\<lambda>b. orDefault (b_byteEncoder tk b) (fromCodePoint b)) bytes
      in if length symbols = 0 then Some [b_unkTokenId tk]
         else if length symbols = 1
         then Some [orDefault (b_vocab tk (symbols ! 0)) (b_unkTokenId tk)]
         else map_option (map (\<lambda>s. orDefault (b_vocab tk s) (b_unkTokenId tk))) (applyBPE tk symbols))"

text \<open>The inner loop of \<open>encodeWordPieceFallback\<close>: the longest piece from \<open>start\<close> that the
  vocabulary has, with the \<open>##\<close> prefix after the first piece.\<close>

fun wordPieceEnd :: "bpe \<Rightarrow> jsstring \<Rightarrow> nat \<Rightarrow> nat \<Rightarrow> (nat \<times> int) option" where
  "wordPieceEnd tk word start end =
     (if start < end
      then (let substr = (if start > 0 then js ''##'' @ slice word start end else slice word start end)
            in case b_vocab tk substr of
                 Some i \<Rightarrow> Some (end, i)
               | None \<Rightarrow> wordPieceEnd tk word start (end - 1))
      else None)"

declare wordPieceEnd.simps [simp del]

lemma wordPieceEnd_bounds: "wordPieceEnd tk word start e = Some (e', i) \<Longrightarrow> start < e' \<and> e' \<le> e"
proof (induction tk word start e rule: wordPieceEnd.induct)
  case (1 tk word start e)
  show ?case
  proof (cases "start < e")
    case True
    then show ?thesis using 1 wordPieceEnd.simps [of tk word start e]
      by (auto simp: Let_def split: option.splits)
  next
    case False
    then show ?thesis using "1.prems" wordPieceEnd.simps [of tk word start e] by simp
  qed
qed

function wordPieceLoop :: "bpe \<Rightarrow> jsstring \<Rightarrow> nat \<Rightarrow> int list \<Rightarrow> int list" where
  "wordPieceLoop tk word start tokens =
     (if start < length word
      then (case wordPieceEnd tk word start (length word) of
              Some (e, i) \<Rightarrow> wordPieceLoop tk word e (tokens @ [i])
            | None \<Rightarrow> wordPieceLoop tk word (start + 1) (tokens @ [b_unkTokenId tk]))
      else tokens)"
  by pat_completeness auto
termination
proof (relation "measure (\<lambda>(tk, word, start, tokens). length word - start)", goal_cases)
  case 1
  show ?case by simp
next
  case (2 tk word start tokens)
  then show ?case by simp
next
  case (3 tk word start tokens x e i)
  then show ?case using wordPieceEnd_bounds [of tk word start "length word" e i] by auto
qed

definition encodeWordPieceFallback :: "bpe \<Rightarrow> jsstring \<Rightarrow> int list" where
  "encodeWordPieceFallback tk word =
     (case b_vocab tk word of
        Some i \<Rightarrow> [i]
      | None \<Rightarrow> wordPieceLoop tk word 0 [])"

definition bpe_encodeWord :: "bpe \<Rightarrow> jsstring \<Rightarrow> (js_error + int list) option" where
  "bpe_encodeWord tk word =
     (case b_addedTokens tk word of
        Some i \<Rightarrow> Some (Inr [i])
      | None \<Rightarrow>
          (if b_isByteLevelBPE tk then map_option Inr (encodeByteLevelBPE tk word)
           else Some (Inr (encodeWordPieceFallback tk word))))"

subsection \<open>The module: one process-wide tokenizer\<close>

datatype tokenizer = Unigram unigram | BPE bpe

text \<open>\<open>tokenizerJson.model?.type\<close>\<close>

definition modelType :: "tokenizer_json \<Rightarrow> jsstring option" where
  "modelType tj = (case t_model tj of Some model \<Rightarrow> m_type model | None \<Rightarrow> None)"

text \<open>\<open>initTokenizer\<close> returns the new value of \<open>_tokenizer\<close>, or the constructor's error, which
  leaves \<open>_tokenizer\<close> as it was.\<close>

definition initTokenizer :: "tokenizer_json \<Rightarrow> js_error + tokenizer option" where
  "initTokenizer tj =
     (if modelType tj = Some (js ''Unigram'')
      then (case newUnigramTokenizer tj of Inl e \<Rightarrow> Inl e | Inr t \<Rightarrow> Inr (Some (Unigram t)))
      else (case newBPETokenizer tj of Inl e \<Rightarrow> Inl e | Inr t \<Rightarrow> Inr (Some (BPE t))))"

definition notInitialized :: js_error where
  "notInitialized = Error ''Tokenizer not initialized''"

definition encodeWord ::
  "(jsstring \<Rightarrow> jsstring) \<Rightarrow> tokenizer option \<Rightarrow> jsstring \<Rightarrow> (js_error + int list) option" where
  "encodeWord nfkc tokenizer word =
     (case tokenizer of
        None \<Rightarrow> Some (Inl notInitialized)
      | Some (Unigram tk) \<Rightarrow> unigram_encodeWord nfkc tk word
      | Some (BPE tk) \<Rightarrow> bpe_encodeWord tk word)"

definition getSpecialTokenId :: "tokenizer option \<Rightarrow> jsstring \<Rightarrow> js_error + int" where
  "getSpecialTokenId tokenizer token =
     (case tokenizer of
        None \<Rightarrow> Inl notInitialized
      | Some (Unigram tk) \<Rightarrow> Inr (unigram_getTokenId tk token)
      | Some (BPE tk) \<Rightarrow> Inr (bpe_getTokenId tk token))"

definition getClsTokenId :: "tokenizer option \<Rightarrow> js_error + int" where
  "getClsTokenId tokenizer =
     (case tokenizer of
        None \<Rightarrow> Inl notInitialized
      | Some (Unigram tk) \<Rightarrow> Inr (u_clsTokenId tk)
      | Some (BPE tk) \<Rightarrow> Inr (b_clsTokenId tk))"

definition getSepTokenId :: "tokenizer option \<Rightarrow> js_error + int" where
  "getSepTokenId tokenizer =
     (case tokenizer of
        None \<Rightarrow> Inl notInitialized
      | Some (Unigram tk) \<Rightarrow> Inr (u_sepTokenId tk)
      | Some (BPE tk) \<Rightarrow> Inr (b_sepTokenId tk))"

subsection \<open>Every call of \<open>encodeWord\<close> returns\<close>

definition wfBest :: "nat \<Rightarrow> vslot list \<Rightarrow> bool" where
  "wfBest n best \<longleftrightarrow> length best = Suc n \<and> (\<forall>j. 0 < j \<and> j \<le> n \<longrightarrow> v_prev (best ! j) < j)"

lemma wfBest_update:
  "wfBest n best \<Longrightarrow> i < k \<Longrightarrow> k \<le> n \<Longrightarrow> wfBest n (best[k := \<lparr> v_score = s, v_prev = i, v_id = d \<rparr>])"
  by (auto simp: wfBest_def nth_list_update)

lemma viterbiPiece_wf:
  "wfBest n best \<Longrightarrow> 0 < len \<Longrightarrow> i + len \<le> n \<Longrightarrow> wfBest n (viterbiPiece tk text i len best)"
  by (auto simp: viterbiPiece_def Let_def wfBest_update split: option.splits)

lemma viterbiPiece_fold_wf:
  "wfBest n best \<Longrightarrow> (\<forall>len \<in> set lens. 0 < len \<and> i + len \<le> n) \<Longrightarrow>
     wfBest n (fold (viterbiPiece tk text i) lens best)"
  by (induction lens arbitrary: best) (auto simp: viterbiPiece_wf)

lemma viterbiFallback_wf:
  "wfBest n best \<Longrightarrow> i < n \<Longrightarrow> wfBest n (viterbiFallback tk text i best)"
  by (auto simp: viterbiFallback_def Let_def wfBest_update)

lemma viterbiStep_wf:
  assumes "wfBest (length text) best" and "i < length text"
  shows "wfBest (length text) (viterbiStep tk text i best)"
proof -
  let ?maxLen = "min (u_maxPieceLength tk) (length text - i)"
  have "\<forall>len \<in> set [1 ..< ?maxLen + 1]. 0 < len \<and> i + len \<le> length text"
    using assms(2) by auto
  then have "wfBest (length text) (fold (viterbiPiece tk text i) [1 ..< ?maxLen + 1] best)"
    using assms(1) viterbiPiece_fold_wf by blast
  then show ?thesis using assms by (simp add: viterbiStep_def Let_def viterbiFallback_wf)
qed

lemma viterbiStep_fold_wf:
  "wfBest (length text) best \<Longrightarrow> (\<forall>i \<in> set is. i < length text) \<Longrightarrow>
     wfBest (length text) (fold (viterbiStep tk text) is best)"
  by (induction "is" arbitrary: best) (auto simp: viterbiStep_wf)

lemma viterbiForward_wf: "wfBest (length text) (viterbiForward tk text)"
proof -
  have "wfBest (length text) (\<lparr> v_score = Some 0, v_prev = 0, v_id = - 1 \<rparr>
          # replicate (length text) \<lparr> v_score = None, v_prev = 0, v_id = u_unkTokenId tk \<rparr>)"
    by (auto simp: wfBest_def nth_Cons split: nat.splits)
  then show ?thesis
    unfolding viterbiForward_def Let_def by (rule viterbiStep_fold_wf) simp
qed

lemma viterbiBack_returns:
  "wfBest n best \<Longrightarrow> pos \<le> n \<Longrightarrow> \<exists>ids. viterbiBack tk text best pos tokens = Some (Inr ids)"
proof (induction pos arbitrary: tokens rule: less_induct)
  case (less pos)
  show ?case
  proof (cases "pos > 0")
    case False
    then show ?thesis by (subst viterbiBack.simps) simp
  next
    case True
    have lt: "pos < length best" using less.prems by (simp add: wfBest_def)
    have pr: "v_prev (best ! pos) < pos" using less.prems True by (simp add: wfBest_def)
    then have "v_prev (best ! pos) \<le> n" using less.prems by simp
    from less.IH [OF pr less.prems(1) this]
    show ?thesis using True lt by (subst viterbiBack.simps) (simp add: Let_def)
  qed
qed

lemma viterbi_returns: "\<exists>ids. viterbi tk text = Some (Inr ids)"
  using viterbiBack_returns [OF viterbiForward_wf order_refl]
  by (simp add: viterbi_def Let_def)

lemma unigram_encodeWord_returns: "\<exists>ids. unigram_encodeWord nfkc tk word = Some (Inr ids)"
  using viterbi_returns by (simp add: unigram_encodeWord_def Let_def split: option.splits)

definition goodSymbol :: "jsstring \<Rightarrow> bool" where
  "goodSymbol s \<longleftrightarrow> s \<noteq> [] \<and> 32 \<notin> set s"

lemma fromCodePoint_good: "c \<noteq> 32 \<Longrightarrow> goodSymbol (fromCodePoint c)"
  by (auto simp: goodSymbol_def fromCodePoint_def)

lemma setAll_lookup: "setAll kvs m k = Some v \<Longrightarrow> (k, v) \<in> set kvs \<or> m k = Some v"
  by (induction kvs m rule: setAll.induct) (auto split: if_splits)

lemma setAll_other: "k \<notin> fst ` set kvs \<Longrightarrow> setAll kvs m k = m k"
proof (induction kvs m rule: setAll.induct)
  case (1 m)
  show ?case by simp
next
  case (2 k' v' rest m)
  have "k \<notin> fst ` set rest" and "k \<noteq> k'" using "2.prems" by auto
  then have "setAll rest (m(k' \<mapsto> v')) k = (m(k' \<mapsto> v')) k" using "2.IH" by blast
  then show ?case using \<open>k \<noteq> k'\<close> by (simp only: setAll.simps fun_upd_apply if_False)
qed

lemma setAll_defined: "k \<in> fst ` set kvs \<Longrightarrow> \<exists>v. setAll kvs m k = Some v"
proof (induction kvs m rule: setAll.induct)
  case (1 m)
  then show ?case by simp
next
  case (2 k' v' rest m)
  show ?case
  proof (cases "k \<in> fst ` set rest")
    case True
    then have "\<exists>v. setAll rest (m(k' \<mapsto> v')) k = Some v" by (rule "2.IH")
    then show ?thesis by (simp only: setAll.simps)
  next
    case False
    then have "k = k'" using "2.prems" by auto
    have "setAll rest (m(k' \<mapsto> v')) k = (m(k' \<mapsto> v')) k"
      using False by (rule setAll_other)
    then have "setAll rest (m(k' \<mapsto> v')) k = Some v'" using \<open>k = k'\<close> by simp
    then show ?thesis by (simp only: setAll.simps) blast
  qed
qed

lemma byteEncoderStep_inv:
  "byteEncoderStep b (bs, cs, n) = (bs', cs', n') \<Longrightarrow> length bs = length cs \<Longrightarrow> (\<forall>c \<in> set cs. 33 \<le> c) \<Longrightarrow>
     length bs' = length cs' \<and> (\<forall>c \<in> set cs'. 33 \<le> c) \<and> set bs \<subseteq> set bs' \<and> b \<in> set bs'"
  by (auto simp: byteEncoderStep_def split: if_splits)

lemma byteEncoderFold_inv:
  "fold byteEncoderStep l (bs, cs, n) = (bs', cs', n') \<Longrightarrow> length bs = length cs \<Longrightarrow> (\<forall>c \<in> set cs. 33 \<le> c) \<Longrightarrow>
     length bs' = length cs' \<and> (\<forall>c \<in> set cs'. 33 \<le> c) \<and> set bs \<subseteq> set bs' \<and> set l \<subseteq> set bs'"
proof (induction l arbitrary: bs cs n)
  case Nil
  then show ?case by simp
next
  case (Cons b l)
  obtain bs1 cs1 n1 where s: "byteEncoderStep b (bs, cs, n) = (bs1, cs1, n1)"
    by (cases "byteEncoderStep b (bs, cs, n)")
  have i1: "length bs1 = length cs1 \<and> (\<forall>c \<in> set cs1. 33 \<le> c) \<and> set bs \<subseteq> set bs1 \<and> b \<in> set bs1"
    using byteEncoderStep_inv [OF s Cons.prems(2) Cons.prems(3)] .
  have f: "fold byteEncoderStep l (bs1, cs1, n1) = (bs', cs', n')" using Cons.prems(1) s by simp
  have "length bs' = length cs' \<and> (\<forall>c \<in> set cs'. 33 \<le> c) \<and> set bs1 \<subseteq> set bs' \<and> set l \<subseteq> set bs'"
    using Cons.IH [OF f] i1 by blast
  then show ?case using i1 by auto
qed

lemma buildByteEncoder_good:
  "case buildByteEncoder b of Some s \<Rightarrow> goodSymbol s | None \<Rightarrow> b \<noteq> 32"
proof -
  obtain bs cs n where f: "fold byteEncoderStep [0 ..< 256] (printableBytes, printableBytes, 0) = (bs, cs, n)"
    by (cases "fold byteEncoderStep [0 ..< 256] (printableBytes, printableBytes, 0)")
  have p: "\<forall>c \<in> set printableBytes. 33 \<le> c" by (auto simp: printableBytes_def)
  have inv: "length bs = length cs \<and> (\<forall>c \<in> set cs. 33 \<le> c) \<and> set [0 ..< 256] \<subseteq> set bs"
    using byteEncoderFold_inv [OF f _ p] by blast
  have e: "buildByteEncoder = setAll (zip bs (map fromCodePoint cs)) Map.empty"
    by (simp add: buildByteEncoder_def f)
  show ?thesis
  proof (cases "buildByteEncoder b")
    case None
    have "b \<noteq> 32"
    proof
      assume "b = 32"
      then have "b \<in> set bs" using inv by auto
      moreover have "map fst (zip bs (map fromCodePoint cs)) = bs"
        using inv by (simp add: map_fst_zip)
      ultimately have "b \<in> fst ` set (zip bs (map fromCodePoint cs))"
        by (metis set_map)
      then have "\<exists>v. setAll (zip bs (map fromCodePoint cs)) Map.empty b = Some v"
        by (rule setAll_defined)
      then show False using None e by simp
    qed
    then show ?thesis using None by simp
  next
    case (Some s)
    then have "(b, s) \<in> set (zip bs (map fromCodePoint cs))"
      using setAll_lookup [of _ Map.empty b s] e by auto
    then have "s \<in> set (map fromCodePoint cs)" by (meson set_zip_rightD)
    then obtain c where "c \<in> set cs" "s = fromCodePoint c" by auto
    then have "goodSymbol s" using inv fromCodePoint_good [of c] by force
    then show ?thesis using Some by simp
  qed
qed

lemma byteSymbol_good: "goodSymbol (orDefault (buildByteEncoder b) (fromCodePoint b))"
  using buildByteEncoder_good [of b] fromCodePoint_good [of b]
  by (auto simp: orDefault_def split: option.splits)

lemma findBestFrom_pair:
  "findBestFrom tk symbols best = Some (p, r) \<Longrightarrow>
     best = Some (p, r) \<or> (\<exists>x y. (x, y) \<in> set (zip symbols (tl symbols)) \<and> p = x @ [32] @ y)"
proof (induction tk symbols best rule: findBestFrom.induct)
  case (1 tk x y rest best)
  let ?pair = "x @ [32] @ y"
  show ?case
  proof (cases "b_mergeRanks tk ?pair")
    case None
    then have "findBestFrom tk (y # rest) best = Some (p, r)" using "1.prems" by simp
    then have "best = Some (p, r) \<or> (\<exists>x' y'. (x', y') \<in> set (zip (y # rest) (tl (y # rest))) \<and> p = x' @ [32] @ y')"
      using "1.IH" None by auto
    then show ?thesis by auto
  next
    case (Some rank)
    show ?thesis
    proof (cases "case best of None \<Rightarrow> True | Some (_, bestRank) \<Rightarrow> rank < bestRank")
      case True
      then have "findBestFrom tk (y # rest) (Some (?pair, rank)) = Some (p, r)"
        using "1.prems" Some by simp
      then have "Some (?pair, rank) = Some (p, r) \<or> (\<exists>x' y'. (x', y') \<in> set (zip (y # rest) (tl (y # rest))) \<and> p = x' @ [32] @ y')"
        using "1.IH" Some True by auto
      then show ?thesis by auto
    next
      case False
      then have "findBestFrom tk (y # rest) best = Some (p, r)"
        using "1.prems" Some by simp
      then have "best = Some (p, r) \<or> (\<exists>x' y'. (x', y') \<in> set (zip (y # rest) (tl (y # rest))) \<and> p = x' @ [32] @ y')"
        using "1.IH" Some False by auto
      then show ?thesis by auto
    qed
  qed
qed simp_all

lemma findBestMergePair_pair:
  "findBestMergePair tk symbols = Some p \<Longrightarrow>
     \<exists>x y. (x, y) \<in> set (zip symbols (tl symbols)) \<and> p = x @ [32] @ y"
  using findBestFrom_pair [of tk symbols None p]
  by (auto simp: findBestMergePair_def)

lemma splitOn_none: "c \<notin> set s \<Longrightarrow> splitOn c s = [s]"
  by (induction s) auto

lemma splitOn_pair: "c \<notin> set x \<Longrightarrow> c \<notin> set y \<Longrightarrow> splitOn c (x @ [c] @ y) = [x, y]"
  by (induction x) (auto simp: splitOn_none)

lemma mergePass_length: "length (mergePass a b symbols) \<le> length symbols"
  by (induction a b symbols rule: mergePass.induct) auto

lemma mergePass_shrinks:
  "(a, b) \<in> set (zip symbols (tl symbols)) \<Longrightarrow> length (mergePass a b symbols) < length symbols"
proof (induction a b symbols rule: mergePass.induct)
  case (1 a b x y rest)
  show ?case
  proof (cases "x = a \<and> y = b")
    case True
    then show ?thesis using mergePass_length [of a b rest] by simp
  next
    case False
    then have "(a, b) \<in> set (zip (y # rest) (tl (y # rest)))" using "1.prems" by auto
    then have "length (mergePass a b (y # rest)) < length (y # rest)" using "1.IH"(2) False by blast
    then show ?thesis using False by auto
  qed
qed simp_all

lemma mergePass_good:
  "list_all goodSymbol symbols \<Longrightarrow> goodSymbol a \<Longrightarrow> goodSymbol b \<Longrightarrow> list_all goodSymbol (mergePass a b symbols)"
  by (induction a b symbols rule: mergePass.induct) (auto simp: goodSymbol_def)

lemma applyMerge_shrinks:
  assumes "list_all goodSymbol symbols" and "findBestMergePair tk symbols = Some p"
  shows "length (applyMerge p symbols) < length symbols \<and> list_all goodSymbol (applyMerge p symbols)"
proof -
  obtain x y where xy: "(x, y) \<in> set (zip symbols (tl symbols))" and p: "p = x @ [32] @ y"
    using findBestMergePair_pair [OF assms(2)] by blast
  have "x \<in> set symbols" using xy by (meson set_zip_leftD)
  moreover have "y \<in> set symbols" using xy by (metis in_set_zipE list.sel(2) list.set_sel(2))
  ultimately have gx: "goodSymbol x" and gy: "goodSymbol y"
    using assms(1) by (auto simp: list_all_iff)
  have "splitOn 32 p = [x, y]" using gx gy p splitOn_pair [of 32 x y] by (simp add: goodSymbol_def)
  then have "applyMerge p symbols = mergePass x y symbols" by (simp add: applyMerge_def)
  then show ?thesis using mergePass_shrinks [OF xy] mergePass_good [OF assms(1) gx gy] by simp
qed

lemma bpeLoop_returns:
  "list_all goodSymbol symbols \<Longrightarrow> bestPair = findBestMergePair tk symbols \<Longrightarrow>
     \<exists>r. bpeLoop tk symbols bestPair = Some r"
proof (induction "length symbols" arbitrary: symbols bestPair rule: less_induct)
  case less
  show ?case
  proof (cases bestPair)
    case None
    then show ?thesis by (subst bpeLoop.simps) simp
  next
    case (Some p)
    then have f: "findBestMergePair tk symbols = Some p" using less.prems by simp
    have sh: "length (applyMerge p symbols) < length symbols"
      and gd: "list_all goodSymbol (applyMerge p symbols)"
      using applyMerge_shrinks [OF less.prems(1) f] by auto
    have "\<exists>r. bpeLoop tk (applyMerge p symbols) (findBestMergePair tk (applyMerge p symbols)) = Some r"
      using less.hyps [OF sh gd refl] .
    then show ?thesis using Some by (subst bpeLoop.simps) (simp add: Let_def)
  qed
qed

lemma applyBPE_returns: "list_all goodSymbol symbols \<Longrightarrow> \<exists>r. applyBPE tk symbols = Some r"
  using bpeLoop_returns [of symbols _ tk] by (simp add: applyBPE_def)

lemma encodeByteLevelBPE_returns:
  assumes "b_byteEncoder tk = buildByteEncoder"
  shows "\<exists>ids. encodeByteLevelBPE tk word = Some ids"
proof -
  let ?bytes = "utf8encode (if b_addPrefixSpace tk then 32 # word else word)"
  let ?symbols = "map (\<lambda>b. orDefault (b_byteEncoder tk b) (fromCodePoint b)) ?bytes"
  have "list_all goodSymbol ?symbols"
    using assms byteSymbol_good by (simp add: list_all_iff)
  then obtain r where "applyBPE tk ?symbols = Some r" using applyBPE_returns by blast
  then show ?thesis by (simp add: encodeByteLevelBPE_def Let_def)
qed

lemma newBPETokenizer_byteEncoder: "newBPETokenizer tj = Inr tk \<Longrightarrow> b_byteEncoder tk = buildByteEncoder"
  by (auto simp: newBPETokenizer_def Let_def split: option.splits)

lemma bpe_encodeWord_returns:
  "b_byteEncoder tk = buildByteEncoder \<Longrightarrow> \<exists>ids. bpe_encodeWord tk word = Some (Inr ids)"
  using encodeByteLevelBPE_returns [of tk word]
  by (auto simp: bpe_encodeWord_def split: option.splits)

lemma encodeWord_returns:
  "initTokenizer tj = Inr (Some tk) \<Longrightarrow> \<exists>ids. encodeWord nfkc (Some tk) word = Some (Inr ids)"
proof (cases tk)
  case (Unigram u)
  then show ?thesis using unigram_encodeWord_returns [of nfkc u word] by (simp add: encodeWord_def)
next
  case (BPE b)
  assume init: "initTokenizer tj = Inr (Some tk)"
  have "newBPETokenizer tj = Inr b"
    using init BPE by (auto simp: initTokenizer_def split: if_splits sum.splits)
  then have "b_byteEncoder b = buildByteEncoder" by (rule newBPETokenizer_byteEncoder)
  then show ?thesis using BPE bpe_encodeWord_returns [of b word] by (simp add: encodeWord_def)
qed

definition exampleUnigramJson :: tokenizer_json where
  "exampleUnigramJson =
     \<lparr> t_model = Some \<lparr> m_type = Some (js ''Unigram''),
                        m_vocab = Some (VocabArray [(js ''<unk>'', 0), ([9601], - 2), ([9601, 97], - 3),
                                                    (js ''b'', - 4), (js ''<0x63>'', - 5)]),
                        m_merges = None, m_unk_id = Some 0, m_byte_fallback = False \<rparr>,
       t_added_tokens = Some [(js ''[CLS]'', 1), (js ''<<ENT>>'', 7)],
       t_pre_tokenizer = None \<rparr>"

definition exampleBpeJson :: tokenizer_json where
  "exampleBpeJson =
     \<lparr> t_model = Some \<lparr> m_type = Some (js ''BPE''),
                        m_vocab = Some (VocabObject [(js ''[UNK]'', 0), (js ''a'', 3), (js ''b'', 4), (js ''ab'', 5)]),
                        m_merges = Some [MergeString (js ''a b'')], m_unk_id = None, m_byte_fallback = False \<rparr>,
       t_added_tokens = None,
       t_pre_tokenizer = Some \<lparr> pt_type = Some (js ''ByteLevel''), pt_add_prefix_space = False,
                                 pt_pretokenizers = None \<rparr> \<rparr>"

definition exampleWordPieceJson :: tokenizer_json where
  "exampleWordPieceJson =
     \<lparr> t_model = Some \<lparr> m_type = Some (js ''WordPiece''),
                        m_vocab = Some (VocabObject [(js ''[UNK]'', 0), (js ''un'', 5), (js ''##aff'', 6),
                                                     (js ''##able'', 7)]),
                        m_merges = None, m_unk_id = None, m_byte_fallback = False \<rparr>,
       t_added_tokens = None,
       t_pre_tokenizer = None \<rparr>"

lemma exampleUnigram_encode:
  "\<exists>tk. initTokenizer exampleUnigramJson = Inr (Some tk)
        \<and> encodeWord id (Some tk) (js ''abcd'') = Some (Inr [2, 3, 4, 0])"
  by (simp add: initTokenizer_def exampleUnigramJson_def js_def encodeWord_def unigram_encodeWord_def
      newUnigramTokenizer_def modelType_def Let_def orDefault_def orElse_def viterbi_def
      replaceSpaces_def viterbiForward_def viterbiStep_def viterbiPiece_def viterbiFallback_def
      slice_def scoreAdd_def utf8cp_def isHighSurrogate_def isLowSurrogate_def hexVal_def
      viterbiBack.simps upt_rec)

lemma exampleWordPiece_encode:
  "\<exists>tk. initTokenizer exampleWordPieceJson = Inr (Some tk)
        \<and> encodeWord id (Some tk) (js ''unaffable'') = Some (Inr [5, 6, 7])
        \<and> encodeWord id (Some tk) (js ''unx'') = Some (Inr [5, 0])"
  by (simp add: initTokenizer_def exampleWordPieceJson_def js_def encodeWord_def bpe_encodeWord_def
      newBPETokenizer_def modelType_def Let_def orDefault_def orElse_def isByteLevelType_def
      encodeWordPieceFallback_def wordPieceEnd.simps slice_def)

lemma exampleBpe_init: "\<exists>tk. initTokenizer exampleBpeJson = Inr (Some tk)"
  by (simp add: initTokenizer_def exampleBpeJson_def modelType_def newBPETokenizer_def js_def Let_def)

subsection \<open>What the token ids stand for\<close>

text \<open>The ids that \<open>encodeWord\<close> is to return, stated apart from the loops that compute them.

  WordPiece fallback: the word is cut into pieces from left to right. A piece is looked up as it
  is at the start of the word and with the prefix \<open>##\<close> after it, and gives its id. Where no piece
  that starts at a position is in the vocabulary, the code unit there gives the unknown-token
  id.\<close>

inductive wordPieces :: "bpe \<Rightarrow> jsstring \<Rightarrow> nat \<Rightarrow> int list \<Rightarrow> bool" for tk :: bpe and word :: jsstring where
  wordPieces_end: "length word \<le> start \<Longrightarrow> wordPieces tk word start []"
| wordPieces_piece:
    "start < e \<Longrightarrow> e \<le> length word \<Longrightarrow>
     b_vocab tk (if start > 0 then js ''##'' @ slice word start e else slice word start e) = Some i \<Longrightarrow>
     wordPieces tk word e ids \<Longrightarrow> wordPieces tk word start (i # ids)"
| wordPieces_unknown:
    "start < length word \<Longrightarrow>
     (\<forall>e. start < e \<and> e \<le> length word \<longrightarrow>
          b_vocab tk (if start > 0 then js ''##'' @ slice word start e else slice word start e) = None) \<Longrightarrow>
     wordPieces tk word (start + 1) ids \<Longrightarrow> wordPieces tk word start (b_unkTokenId tk # ids)"

text \<open>Byte-level BPE: the bytes of the word (after the prefix space, if any), each as its symbol,
  are joined into pieces, and each piece gives its id, or the unknown-token id when the
  vocabulary does not have it. A word without bytes gives the unknown-token id.\<close>

definition byteSymbols :: "bpe \<Rightarrow> jsstring \<Rightarrow> jsstring list" where
  "byteSymbols tk word =
     map (\<lambda>b. orDefault (b_byteEncoder tk b) (fromCodePoint b))
       (utf8encode (if b_addPrefixSpace tk then 32 # word else word))"

definition bytePieces :: "bpe \<Rightarrow> jsstring \<Rightarrow> int list \<Rightarrow> bool" where
  "bytePieces tk word ids \<longleftrightarrow>
     (if byteSymbols tk word = [] then ids = [b_unkTokenId tk]
      else (\<exists>pieces. pieces \<noteq> [] \<and> [] \<notin> set pieces \<and> concat pieces = concat (byteSymbols tk word)
                     \<and> ids = map (\<lambda>s. orDefault (b_vocab tk s) (b_unkTokenId tk)) pieces))"

lemma wordPieceEnd_found:
  "wordPieceEnd tk word start e = Some (e', i) \<Longrightarrow>
     start < e' \<and> e' \<le> e
     \<and> b_vocab tk (if start > 0 then js ''##'' @ slice word start e' else slice word start e') = Some i"
proof (induction tk word start e rule: wordPieceEnd.induct)
  case (1 tk word start e)
  show ?case
  proof (cases "start < e")
    case True
    then show ?thesis using 1 wordPieceEnd.simps [of tk word start e]
      by (auto simp: Let_def split: option.splits if_splits)
  next
    case False
    then show ?thesis using "1.prems" wordPieceEnd.simps [of tk word start e] by simp
  qed
qed

lemma wordPieceEnd_none:
  "wordPieceEnd tk word start e = None \<Longrightarrow> start < e' \<Longrightarrow> e' \<le> e \<Longrightarrow>
     b_vocab tk (if start > 0 then js ''##'' @ slice word start e' else slice word start e') = None"
proof (induction tk word start e rule: wordPieceEnd.induct)
  case (1 tk word start e)
  have lt: "start < e" using "1.prems" by simp
  let ?k = "if start > 0 then js ''##'' @ slice word start e else slice word start e"
  have n: "b_vocab tk ?k = None" and r: "wordPieceEnd tk word start (e - 1) = None"
    using "1.prems"(1) lt wordPieceEnd.simps [of tk word start e]
    by (auto simp: Let_def split: option.splits if_splits)
  show ?case
  proof (cases "e' = e")
    case True
    then show ?thesis using n by (auto split: if_splits)
  next
    case False
    then have "e' \<le> e - 1" using "1.prems" by simp
    then show ?thesis using "1.IH" [OF lt refl n r "1.prems"(2)] by simp
  qed
qed

lemma wordPieceLoop_pieces:
  "\<exists>ids. wordPieceLoop tk word start tokens = tokens @ ids \<and> wordPieces tk word start ids"
proof (induction tk word start tokens rule: wordPieceLoop.induct)
  case (1 tk word start tokens)
  show ?case
  proof (cases "start < length word")
    case False
    then have "wordPieces tk word start []" by (simp add: wordPieces_end)
    then show ?thesis using False by (subst wordPieceLoop.simps) simp
  next
    case True
    show ?thesis
    proof (cases "wordPieceEnd tk word start (length word)")
      case None
      obtain ids where ids: "wordPieceLoop tk word (start + 1) (tokens @ [b_unkTokenId tk])
          = (tokens @ [b_unkTokenId tk]) @ ids" "wordPieces tk word (start + 1) ids"
        using "1.IH"(1) [OF True None] by blast
      have "wordPieces tk word start (b_unkTokenId tk # ids)"
        using wordPieces_unknown [OF True _ ids(2)] wordPieceEnd_none [OF None] by blast
      then show ?thesis using True None ids(1) by (subst wordPieceLoop.simps) simp
    next
      case (Some p)
      obtain e i where p: "p = (e, i)" by (cases p)
      obtain ids where ids: "wordPieceLoop tk word e (tokens @ [i]) = (tokens @ [i]) @ ids"
          "wordPieces tk word e ids"
        using "1.IH"(2) [OF True Some [unfolded p] refl] by blast
      have f: "start < e \<and> e \<le> length word
          \<and> b_vocab tk (if start > 0 then js ''##'' @ slice word start e else slice word start e) = Some i"
        using wordPieceEnd_found Some p by blast
      have "wordPieces tk word start (i # ids)"
        using wordPieces_piece [of start e word tk i ids] f ids(2) by blast
      then show ?thesis using True Some p ids(1) by (subst wordPieceLoop.simps) simp
    qed
  qed
qed

lemma encodeWordPieceFallback_pieces:
  "case b_vocab tk word of
     Some i \<Rightarrow> encodeWordPieceFallback tk word = [i]
   | None \<Rightarrow> wordPieces tk word 0 (encodeWordPieceFallback tk word)"
  using wordPieceLoop_pieces [of tk word 0 "[]"]
  by (auto simp: encodeWordPieceFallback_def split: option.splits)

lemma mergePass_concat: "concat (mergePass a b symbols) = concat symbols"
  by (induction a b symbols rule: mergePass.induct) auto

lemma applyMerge_concat: "concat (applyMerge p symbols) = concat symbols"
  by (auto simp: applyMerge_def mergePass_concat split: list.splits)

lemma bpeLoop_pieces:
  "list_all goodSymbol symbols \<Longrightarrow> bestPair = findBestMergePair tk symbols \<Longrightarrow>
     \<exists>r. bpeLoop tk symbols bestPair = Some r \<and> concat r = concat symbols \<and> list_all goodSymbol r"
proof (induction "length symbols" arbitrary: symbols bestPair rule: less_induct)
  case less
  show ?case
  proof (cases bestPair)
    case None
    then show ?thesis using less.prems(1) by (subst bpeLoop.simps) simp
  next
    case (Some p)
    then have f: "findBestMergePair tk symbols = Some p" using less.prems by simp
    have sh: "length (applyMerge p symbols) < length symbols"
      and gd: "list_all goodSymbol (applyMerge p symbols)"
      using applyMerge_shrinks [OF less.prems(1) f] by auto
    obtain r where r: "bpeLoop tk (applyMerge p symbols) (findBestMergePair tk (applyMerge p symbols)) = Some r"
        "concat r = concat (applyMerge p symbols)" "list_all goodSymbol r"
      using less.hyps [OF sh gd refl] by blast
    show ?thesis
    proof (cases "length (applyMerge p symbols) \<le> 1")
      case True
      then show ?thesis using Some gd applyMerge_concat [of p symbols]
        by (subst bpeLoop.simps) (simp add: Let_def)
    next
      case False
      then show ?thesis using Some r applyMerge_concat [of p symbols]
        by (subst bpeLoop.simps) (simp add: Let_def)
    qed
  qed
qed

lemma applyBPE_pieces:
  "list_all goodSymbol symbols \<Longrightarrow>
     \<exists>r. applyBPE tk symbols = Some r \<and> concat r = concat symbols \<and> list_all goodSymbol r"
  using bpeLoop_pieces [of symbols _ tk] by (simp add: applyBPE_def)

lemma encodeByteLevelBPE_pieces:
  assumes "b_byteEncoder tk = buildByteEncoder"
  shows "\<exists>ids. encodeByteLevelBPE tk word = Some ids \<and> bytePieces tk word ids"
proof -
  let ?symbols = "byteSymbols tk word"
  have g: "list_all goodSymbol ?symbols"
    using assms byteSymbol_good by (simp add: list_all_iff byteSymbols_def)
  have e: "encodeByteLevelBPE tk word =
      (if length ?symbols = 0 then Some [b_unkTokenId tk]
       else if length ?symbols = 1 then Some [orDefault (b_vocab tk (?symbols ! 0)) (b_unkTokenId tk)]
       else map_option (map (\<lambda>s. orDefault (b_vocab tk s) (b_unkTokenId tk))) (applyBPE tk ?symbols))"
    by (simp add: encodeByteLevelBPE_def byteSymbols_def Let_def)
  show ?thesis
  proof (cases "?symbols = []")
    case True
    then show ?thesis using e by (simp add: bytePieces_def)
  next
    case False
    obtain r where r: "applyBPE tk ?symbols = Some r" "concat r = concat ?symbols" "list_all goodSymbol r"
      using applyBPE_pieces [OF g] by blast
    have ne: "[] \<notin> set ?symbols" "[] \<notin> set r"
      using g r(3) by (auto simp: list_all_iff goodSymbol_def)
    show ?thesis
    proof (cases "length ?symbols = 1")
      case True
      then obtain s where s: "?symbols = [s]" by (cases ?symbols) auto
      have "bytePieces tk word [orDefault (b_vocab tk s) (b_unkTokenId tk)]"
        unfolding bytePieces_def using s ne(1) by (auto intro!: exI [of _ "[s]"])
      then show ?thesis using e s by simp
    next
      case False
      have rn: "r \<noteq> []"
      proof
        assume "r = []"
        then have "concat ?symbols = []" using r(2) by simp
        then show False using ne(1) \<open>?symbols \<noteq> []\<close> by (cases ?symbols) auto
      qed
      have "bytePieces tk word (map (\<lambda>s. orDefault (b_vocab tk s) (b_unkTokenId tk)) r)"
        unfolding bytePieces_def using \<open>?symbols \<noteq> []\<close> rn ne(2) r(2) by auto
      then show ?thesis using e False \<open>?symbols \<noteq> []\<close> r(1) by simp
    qed
  qed
qed

text \<open>Unigram: the input, which is the normalized word after U+2581, is cut into segments from
  left to right. A segment that is a piece of the vocabulary gives the id of the piece. A single
  code unit can instead go through the byte fallback: each byte of its UTF-8 encoding gives its
  byte token, or the unknown-token id when it has none, the last byte first. Or, when one of
  its bytes has no byte token, the code unit gives the unknown-token id.\<close>

inductive unigramPieces :: "unigram \<Rightarrow> jsstring \<Rightarrow> int list \<Rightarrow> bool" for tk :: unigram where
  unigramPieces_end: "unigramPieces tk [] []"
| unigramPieces_piece:
    "piece \<noteq> [] \<Longrightarrow> u_pieces tk piece = Some (i, score) \<Longrightarrow> unigramPieces tk rest ids \<Longrightarrow>
     unigramPieces tk (piece @ rest) (i # ids)"
| unigramPieces_bytes:
    "unigramPieces tk rest ids \<Longrightarrow>
     unigramPieces tk (c # rest)
       (rev (map (\<lambda>b. orDefault (u_byteTokens tk b) (u_unkTokenId tk)) (utf8encode [c])) @ ids)"
| unigramPieces_unknown:
    "\<not> list_all (\<lambda>b. u_byteTokens tk b \<noteq> None) (utf8encode [c]) \<Longrightarrow> unigramPieces tk rest ids \<Longrightarrow>
     unigramPieces tk (c # rest) (u_unkTokenId tk # ids)"

lemma unigramPieces_append:
  "unigramPieces tk xs ids \<Longrightarrow> unigramPieces tk ys ids' \<Longrightarrow> unigramPieces tk (xs @ ys) (ids @ ids')"
proof (induction rule: unigramPieces.induct)
  case unigramPieces_end
  then show ?case by simp
next
  case (unigramPieces_piece piece i score rest ids)
  then show ?case using unigramPieces.unigramPieces_piece [of piece tk i score "rest @ ys" "ids @ ids'"] by simp
next
  case (unigramPieces_bytes rest ids c)
  then show ?case using unigramPieces.unigramPieces_bytes [of tk "rest @ ys" "ids @ ids'" c] by simp
next
  case (unigramPieces_unknown c rest ids)
  then show ?case using unigramPieces.unigramPieces_unknown [of tk c "rest @ ys" "ids @ ids'"] by simp
qed

text \<open>The ids of the vocabulary are indices of \<open>model.vocab\<close>, so none is the marker \<open>-2\<close>.\<close>

definition idsFromIndex :: "(jsstring \<rightharpoonup> (int \<times> real)) \<Rightarrow> bool" where
  "idsFromIndex pieces \<longleftrightarrow> (\<forall>p i s. pieces p = Some (i, s) \<longrightarrow> 0 \<le> i)"

lemma unigramVocab_ids:
  "idsFromIndex (fst acc) \<Longrightarrow> idsFromIndex (fst (unigramVocab idx entries acc))"
proof (induction entries arbitrary: idx acc)
  case Nil
  then show ?case by simp
next
  case (Cons entry entries)
  obtain piece score where e: "entry = (piece, score)" by (cases entry)
  obtain pieces bt mx where acc: "acc = (pieces, bt, mx)" by (cases acc)
  have p: "idsFromIndex pieces" using Cons.prems acc by simp
  then have q: "idsFromIndex (pieces(piece \<mapsto> (int idx, score)))" by (auto simp: idsFromIndex_def)
  have "\<exists>acc'. unigramVocab idx (entry # entries) acc = unigramVocab (idx + 1) entries acc'
          \<and> idsFromIndex (fst acc')"
  proof (cases "pieces piece")
    case None
    define bt1 where "bt1 = (case byteMatch piece of Some v \<Rightarrow> bt(v \<mapsto> int idx) | None \<Rightarrow> bt)"
    define mx1 where "mx1 = (if length piece > mx then length piece else mx)"
    have "unigramVocab idx (entry # entries) acc
        = unigramVocab (idx + 1) entries (pieces(piece \<mapsto> (int idx, score)), bt1, mx1)"
      using None e acc by (simp add: Let_def bt1_def mx1_def)
    then show ?thesis using q by (metis fst_conv)
  next
    case (Some x)
    define bt1 where "bt1 = (case byteMatch piece of Some v \<Rightarrow> bt(v \<mapsto> int idx) | None \<Rightarrow> bt)"
    have "unigramVocab idx (entry # entries) acc = unigramVocab (idx + 1) entries (pieces, bt1, mx)"
      using Some e acc by (simp add: Let_def bt1_def)
    then show ?thesis using p by (metis fst_conv)
  qed
  then show ?case using Cons.IH by auto
qed

lemma newUnigramTokenizer_ids: "newUnigramTokenizer tj = Inr tk \<Longrightarrow> idsFromIndex (u_pieces tk)"
proof -
  assume a: "newUnigramTokenizer tj = Inr tk"
  then obtain model where m: "t_model tj = Some model"
    by (auto simp: newUnigramTokenizer_def split: option.splits)
  have e: "idsFromIndex Map.empty" by (simp add: idsFromIndex_def)
  show ?thesis
  proof (cases "m_vocab model")
    case None
    then show ?thesis using a m e by (auto simp: newUnigramTokenizer_def Let_def)
  next
    case (Some v)
    show ?thesis
    proof (cases v)
      case (VocabObject x)
      then show ?thesis using a m e Some by (auto simp: newUnigramTokenizer_def Let_def)
    next
      case (VocabArray entries)
      obtain p b x where u: "unigramVocab 0 entries (Map.empty, Map.empty, 0) = (p, b, x)"
        by (cases "unigramVocab 0 entries (Map.empty, Map.empty, 0)")
      have "u_pieces tk = p" using a m Some VocabArray u by (auto simp: newUnigramTokenizer_def Let_def)
      then show ?thesis using unigramVocab_ids [of "(Map.empty, Map.empty, 0)" 0 entries] e u by simp
    qed
  qed
qed

definition pieceSlot :: "unigram \<Rightarrow> jsstring \<Rightarrow> nat \<Rightarrow> vslot \<Rightarrow> bool" where
  "pieceSlot tk text j s \<longleftrightarrow>
     v_prev s < j
     \<and> ((v_id s \<noteq> - 2 \<and> (\<exists>score. u_pieces tk (slice text (v_prev s) j) = Some (v_id s, score)))
        \<or> (v_prev s = j - 1
           \<and> (v_id s = - 2
              \<or> (v_id s = u_unkTokenId tk
                 \<and> \<not> list_all (\<lambda>b. u_byteTokens tk b \<noteq> None) (utf8encode [text ! (j - 1)])))))"

definition tableOK :: "unigram \<Rightarrow> jsstring \<Rightarrow> nat \<Rightarrow> vslot list \<Rightarrow> bool" where
  "tableOK tk text k best \<longleftrightarrow>
     length best = Suc (length text)
     \<and> (\<forall>j \<le> k. j \<le> length text \<longrightarrow> v_score (best ! j) \<noteq> None)
     \<and> (\<forall>j. 0 < j \<and> j \<le> length text \<and> v_score (best ! j) \<noteq> None \<longrightarrow> pieceSlot tk text j (best ! j))"

lemma tableOK_update:
  assumes "tableOK tk text k best" and "j \<le> length text" and "s \<noteq> None"
    and "pieceSlot tk text j \<lparr> v_score = s, v_prev = p, v_id = d \<rparr>"
  shows "tableOK tk text k (best[j := \<lparr> v_score = s, v_prev = p, v_id = d \<rparr>])"
  using assms by (auto simp: tableOK_def nth_list_update)

lemma viterbiPiece_ok:
  assumes "tableOK tk text k best" and "idsFromIndex (u_pieces tk)" and "v_score (best ! i) \<noteq> None"
    and "0 < len" and "i + len \<le> length text"
  shows "tableOK tk text k (viterbiPiece tk text i len best)"
proof (cases "u_pieces tk (slice text i (i + len))")
  case None
  then show ?thesis using assms(1) by (simp add: viterbiPiece_def)
next
  case (Some p)
  obtain pid score where p: "p = (pid, score)" by (cases p)
  have "0 \<le> pid" using assms(2) Some p unfolding idsFromIndex_def by blast
  then have pid: "pid \<noteq> - 2" by simp
  have sc: "scoreAdd (v_score (best ! i)) score \<noteq> None" using assms(3) by (simp add: scoreAdd_def)
  have ps: "pieceSlot tk text (i + len) \<lparr> v_score = scoreAdd (v_score (best ! i)) score, v_prev = i, v_id = pid \<rparr>"
    using assms(4) pid Some p by (simp add: pieceSlot_def)
  show ?thesis
    using Some p assms(1) tableOK_update [OF assms(1) assms(5) sc ps]
    by (simp add: viterbiPiece_def Let_def)
qed

lemma viterbiPiece_keeps: "v_score (best ! i) \<noteq> None \<Longrightarrow> 0 < len \<Longrightarrow> v_score (viterbiPiece tk text i len best ! i) \<noteq> None"
  by (auto simp: viterbiPiece_def Let_def split: option.splits)

lemma viterbiPiece_fold_ok:
  "tableOK tk text k best \<Longrightarrow> idsFromIndex (u_pieces tk) \<Longrightarrow> v_score (best ! i) \<noteq> None \<Longrightarrow>
   (\<forall>len \<in> set lens. 0 < len \<and> i + len \<le> length text) \<Longrightarrow>
     tableOK tk text k (fold (viterbiPiece tk text i) lens best)
     \<and> v_score (fold (viterbiPiece tk text i) lens best ! i) \<noteq> None"
proof (induction lens arbitrary: best)
  case Nil
  then show ?case by simp
next
  case (Cons len lens)
  have a: "tableOK tk text k (viterbiPiece tk text i len best)"
    using viterbiPiece_ok [OF Cons.prems(1) Cons.prems(2) Cons.prems(3)] Cons.prems(4) by simp
  have b: "v_score (viterbiPiece tk text i len best ! i) \<noteq> None"
    using viterbiPiece_keeps [OF Cons.prems(3)] Cons.prems(4) by simp
  show ?case using Cons.IH [OF a Cons.prems(2) b] Cons.prems(4) by simp
qed

lemma viterbiFallback_ok:
  assumes "tableOK tk text i best" and "i < length text" and "v_score (best ! i) \<noteq> None"
  shows "tableOK tk text (Suc i) (viterbiFallback tk text i best)"
proof (cases "v_score (best ! (i + 1)) = None")
  case False
  have "\<forall>j \<le> Suc i. j \<le> length text \<longrightarrow> v_score (best ! j) \<noteq> None"
  proof (intro allI impI)
    fix j assume "j \<le> Suc i" "j \<le> length text"
    then show "v_score (best ! j) \<noteq> None"
      using False assms(1) by (cases "j = Suc i") (auto simp: tableOK_def)
  qed
  then have "tableOK tk text (Suc i) best" using assms(1) by (simp add: tableOK_def)
  moreover have "viterbiFallback tk text i best = best"
    unfolding viterbiFallback_def using False by (simp only: if_False)
  ultimately show ?thesis by simp
next
  case True
  obtain x where x: "v_score (best ! i) = Some x" using assms(3) by auto
  let ?all = "list_all (\<lambda>x. x \<noteq> None) (map (u_byteTokens tk) (utf8encode [text ! i]))"
  have all: "?all = list_all (\<lambda>b. u_byteTokens tk b \<noteq> None) (utf8encode [text ! i])"
    by (simp add: list_all_iff)
  define slot where "slot = (if ?all then \<lparr> v_score = Some (x - 100), v_prev = i, v_id = - 2 \<rparr>
                             else \<lparr> v_score = Some (x - 200), v_prev = i, v_id = u_unkTokenId tk \<rparr>)"
  have e: "viterbiFallback tk text i best = best[Suc i := slot]"
    using True x by (simp add: viterbiFallback_def Let_def scoreAdd_def slot_def del: utf8encode.simps)
  have ps: "pieceSlot tk text (Suc i) slot" using all by (simp add: pieceSlot_def slot_def del: utf8encode.simps)
  have fin: "v_score slot \<noteq> None" by (simp add: slot_def)
  have len: "length best = Suc (length text)" using assms(1) by (simp add: tableOK_def)
  have "tableOK tk text (Suc i) (best[Suc i := slot])"
    unfolding tableOK_def
  proof (intro conjI allI impI)
    show "length (best[Suc i := slot]) = Suc (length text)" using len by simp
  next
    fix j assume "j \<le> Suc i" "j \<le> length text"
    then show "v_score (best[Suc i := slot] ! j) \<noteq> None"
      using assms(1) fin len by (cases "j = Suc i") (auto simp: tableOK_def nth_list_update)
  next
    fix j assume "0 < j \<and> j \<le> length text \<and> v_score (best[Suc i := slot] ! j) \<noteq> None"
    then show "pieceSlot tk text j (best[Suc i := slot] ! j)"
      using assms(1) ps len by (cases "j = Suc i") (auto simp: tableOK_def nth_list_update)
  qed
  then show ?thesis using e by simp
qed

lemma viterbiStep_ok:
  assumes "tableOK tk text i best" and "idsFromIndex (u_pieces tk)" and "i < length text"
  shows "tableOK tk text (Suc i) (viterbiStep tk text i best)"
proof -
  have fin: "v_score (best ! i) \<noteq> None" using assms(1) assms(3) by (simp add: tableOK_def)
  let ?maxLen = "min (u_maxPieceLength tk) (length text - i)"
  let ?best1 = "fold (viterbiPiece tk text i) [1 ..< ?maxLen + 1] best"
  have "\<forall>len \<in> set [1 ..< ?maxLen + 1]. 0 < len \<and> i + len \<le> length text"
    using assms(3) by auto
  then have "tableOK tk text i ?best1 \<and> v_score (?best1 ! i) \<noteq> None"
    using viterbiPiece_fold_ok [OF assms(1) assms(2) fin] by blast
  then have "tableOK tk text (Suc i) (viterbiFallback tk text i ?best1)"
    using viterbiFallback_ok assms(3) by blast
  moreover have "viterbiStep tk text i best = viterbiFallback tk text i ?best1"
  proof -
    obtain x where "v_score (best ! i) = Some x" using fin by auto
    then show ?thesis unfolding viterbiStep_def Let_def by simp
  qed
  ultimately show ?thesis by simp
qed

lemma viterbiStep_fold_ok:
  "tableOK tk text 0 best \<Longrightarrow> idsFromIndex (u_pieces tk) \<Longrightarrow> k \<le> length text \<Longrightarrow>
     tableOK tk text k (fold (viterbiStep tk text) [0 ..< k] best)"
proof (induction k)
  case 0
  then show ?case by simp
next
  case (Suc k)
  have "tableOK tk text k (fold (viterbiStep tk text) [0 ..< k] best)" using Suc by simp
  then show ?case using viterbiStep_ok [of tk "text" k] Suc.prems by simp
qed

lemma viterbiForward_ok:
  "idsFromIndex (u_pieces tk) \<Longrightarrow> tableOK tk text (length text) (viterbiForward tk text)"
proof -
  assume ids: "idsFromIndex (u_pieces tk)"
  have "tableOK tk text 0 (\<lparr> v_score = Some 0, v_prev = 0, v_id = - 1 \<rparr>
          # replicate (length text) \<lparr> v_score = None, v_prev = 0, v_id = u_unkTokenId tk \<rparr>)"
    by (auto simp: tableOK_def nth_Cons split: nat.splits)
  then show ?thesis
    unfolding viterbiForward_def Let_def using viterbiStep_fold_ok [OF _ ids order_refl] by blast
qed

lemma fold_unshift: "fold (\<lambda>b toks. g b # toks) bs tokens = rev (map g bs) @ tokens"
  by (induction bs arbitrary: tokens) auto

lemma take_slice: "p \<le> q \<Longrightarrow> q \<le> length text \<Longrightarrow> take q text = take p text @ slice text p q"
proof -
  assume a: "p \<le> q" "q \<le> length text"
  have "take q text = take (p + (q - p)) text" using a by simp
  also have "\<dots> = take p text @ take (q - p) (drop p text)" by (rule take_add)
  finally show ?thesis by (simp add: slice_def)
qed

lemma slice_one: "0 < q \<Longrightarrow> q \<le> length text \<Longrightarrow> slice text (q - 1) q = [text ! (q - 1)]"
proof -
  assume a: "0 < q" "q \<le> length text"
  then have "drop (q - 1) text = text ! (q - 1) # drop q text"
    using Cons_nth_drop_Suc [of "q - 1" "text"] by simp
  then show ?thesis using a by (simp add: slice_def)
qed

lemma viterbiBack_pieces:
  "tableOK tk text (length text) best \<Longrightarrow> pos \<le> length text \<Longrightarrow>
     \<exists>ids. viterbiBack tk text best pos tokens = Some (Inr (ids @ tokens)) \<and> unigramPieces tk (take pos text) ids"
proof (induction pos arbitrary: tokens rule: less_induct)
  case (less pos)
  show ?case
  proof (cases "pos > 0")
    case False
    then show ?thesis using unigramPieces_end by (subst viterbiBack.simps) simp
  next
    case True
    let ?e = "best ! pos"
    have lt: "pos < length best" using less.prems by (simp add: tableOK_def)
    have ps: "pieceSlot tk text pos ?e" using less.prems True by (simp add: tableOK_def)
    then have pr: "v_prev ?e < pos" by (simp add: pieceSlot_def)
    then have le: "v_prev ?e \<le> length text" using less.prems by simp
    show ?thesis
    proof (cases "v_id ?e = - 2")
      case m: True
      then have p1: "v_prev ?e = pos - 1" using ps by (auto simp: pieceSlot_def)
      let ?g = "\<lambda>b. orDefault (u_byteTokens tk b) (u_unkTokenId tk)"
      let ?c = "text ! (pos - 1)"
      let ?toks = "rev (map ?g (utf8encode [?c])) @ tokens"
      obtain ids where ids: "viterbiBack tk text best (v_prev ?e) ?toks = Some (Inr (ids @ ?toks))"
          "unigramPieces tk (take (v_prev ?e) text) ids"
        using less.IH [OF pr less.prems(1) le] by blast
      have "unigramPieces tk [?c] (rev (map ?g (utf8encode [?c])) @ [])"
        using unigramPieces_bytes [OF unigramPieces_end] .
      then have "unigramPieces tk (take (v_prev ?e) text @ [?c]) (ids @ rev (map ?g (utf8encode [?c])))"
        using unigramPieces_append [OF ids(2)] by fastforce
      moreover have "take pos text = take (v_prev ?e) text @ [?c]"
        using take_slice [of "pos - 1" pos "text"] slice_one [OF True less.prems(2)] p1 less.prems(2) by simp
      ultimately have u: "unigramPieces tk (take pos text) (ids @ rev (map ?g (utf8encode [?c])))" by simp
      have "viterbiBack tk text best pos tokens = Some (Inr ((ids @ rev (map ?g (utf8encode [?c]))) @ tokens))"
        using True lt m ids(1) p1 slice_one [OF True less.prems(2)]
        by (subst viterbiBack.simps) (simp add: Let_def fold_unshift)
      then show ?thesis using u by blast
    next
      case m: False
      obtain ids where ids: "viterbiBack tk text best (v_prev ?e) (v_id ?e # tokens) = Some (Inr (ids @ v_id ?e # tokens))"
          "unigramPieces tk (take (v_prev ?e) text) ids"
        using less.IH [OF pr less.prems(1) le] by blast
      have one: "unigramPieces tk (slice text (v_prev ?e) pos) [v_id ?e]"
      proof (cases "\<exists>score. u_pieces tk (slice text (v_prev ?e) pos) = Some (v_id ?e, score)")
        case True
        then obtain score where s: "u_pieces tk (slice text (v_prev ?e) pos) = Some (v_id ?e, score)" by blast
        have ne: "slice text (v_prev ?e) pos \<noteq> []" using pr less.prems(2) by (simp add: slice_def)
        show ?thesis using unigramPieces_piece [OF ne s unigramPieces_end] by simp
      next
        case False
        then have u: "v_prev ?e = pos - 1" "v_id ?e = u_unkTokenId tk"
            "\<not> list_all (\<lambda>b. u_byteTokens tk b \<noteq> None) (utf8encode [text ! (pos - 1)])"
          using ps m by (auto simp: pieceSlot_def)
        show ?thesis
          using unigramPieces_unknown [OF u(3) unigramPieces_end] u(1) u(2) slice_one [OF True less.prems(2)]
          by simp
      qed
      have "unigramPieces tk (take (v_prev ?e) text @ slice text (v_prev ?e) pos) (ids @ [v_id ?e])"
        using unigramPieces_append [OF ids(2) one] .
      then have u: "unigramPieces tk (take pos text) (ids @ [v_id ?e])"
        using take_slice [of "v_prev ?e" pos "text"] pr less.prems(2) by simp
      have "viterbiBack tk text best pos tokens = Some (Inr ((ids @ [v_id ?e]) @ tokens))"
        using True lt m ids(1) by (subst viterbiBack.simps) (simp add: Let_def)
      then show ?thesis using u by blast
    qed
  qed
qed

lemma viterbi_pieces:
  "idsFromIndex (u_pieces tk) \<Longrightarrow> \<exists>ids. viterbi tk text = Some (Inr ids) \<and> unigramPieces tk text ids"
proof -
  assume ids: "idsFromIndex (u_pieces tk)"
  show ?thesis
  proof (cases "length text = 0")
    case True
    then show ?thesis using unigramPieces_end by (simp add: viterbi_def)
  next
    case False
    obtain r where r: "viterbiBack tk text (viterbiForward tk text) (length text) [] = Some (Inr (r @ []))"
        "unigramPieces tk (take (length text) text) r"
      using viterbiBack_pieces [OF viterbiForward_ok [OF ids] order_refl] by blast
    have "viterbi tk text = viterbiBack tk text (viterbiForward tk text) (length text) []"
      using False by (simp add: viterbi_def Let_def)
    then show ?thesis using r by simp
  qed
qed

text \<open>The ids of a word: the id of an added token for a word that is one; otherwise the ids of
  the pieces, as above, for the tokenizer at hand.\<close>

definition encodesWord :: "(jsstring \<Rightarrow> jsstring) \<Rightarrow> tokenizer \<Rightarrow> jsstring \<Rightarrow> int list \<Rightarrow> bool" where
  "encodesWord nfkc tokenizer word ids =
     (case tokenizer of
        Unigram tk \<Rightarrow>
          (case u_addedTokens tk word of
             Some i \<Rightarrow> ids = [i]
           | None \<Rightarrow> unigramPieces tk (9601 # replaceSpaces (nfkc word)) ids)
      | BPE tk \<Rightarrow>
          (case b_addedTokens tk word of
             Some i \<Rightarrow> ids = [i]
           | None \<Rightarrow>
               if b_isByteLevelBPE tk then bytePieces tk word ids
               else (case b_vocab tk word of
                       Some i \<Rightarrow> ids = [i]
                     | None \<Rightarrow> wordPieces tk word 0 ids)))"

text \<open>A description whose \<open>model.type\<close> is not \<open>Unigram\<close> is read by the BPE constructor, which
  takes \<open>model.vocab\<close> for an object from token to id. Given the array of a Unigram vocabulary
  instead, \<open>Object.entries\<close> makes the indices the keys and the \<open>[piece, score]\<close> pairs the
  "ids"; such ids are not numbers and have no place in \<open>b_vocab\<close>. What the ids stand for is
  stated for the descriptions whose vocabulary has the shape that the constructor reads.\<close>

definition vocabShape :: "tokenizer_json \<Rightarrow> bool" where
  "vocabShape tj \<longleftrightarrow>
     (if modelType tj = Some (js ''Unigram'') then True
      else (case t_model tj of
              None \<Rightarrow> True
            | Some model \<Rightarrow> (case m_vocab model of Some (VocabArray entries) \<Rightarrow> False | _ \<Rightarrow> True)))"

lemma unigram_encodeWord_pieces:
  "idsFromIndex (u_pieces tk) \<Longrightarrow>
     \<exists>ids. unigram_encodeWord nfkc tk word = Some (Inr ids) \<and> encodesWord nfkc (Unigram tk) word ids"
  using viterbi_pieces [of tk "9601 # replaceSpaces (nfkc word)"]
  by (auto simp: unigram_encodeWord_def encodesWord_def Let_def split: option.splits)

lemma bpe_encodeWord_pieces:
  "b_byteEncoder tk = buildByteEncoder \<Longrightarrow>
     \<exists>ids. bpe_encodeWord tk word = Some (Inr ids) \<and> encodesWord nfkc (BPE tk) word ids"
  using encodeByteLevelBPE_pieces [of tk word] encodeWordPieceFallback_pieces [of tk word]
  by (auto simp: bpe_encodeWord_def encodesWord_def split: option.splits)

text \<open>The byte encoder maps a printable byte to itself.\<close>

lemma byteEncoderFold_printable:
  "fold byteEncoderStep l (bs, cs, n) = (bs', cs', n') \<Longrightarrow>
   (\<exists>xs ys. bs = printableBytes @ xs \<and> cs = printableBytes @ ys \<and> length xs = length ys
             \<and> set xs \<inter> set printableBytes = {}) \<Longrightarrow>
   (\<exists>xs ys. bs' = printableBytes @ xs \<and> cs' = printableBytes @ ys \<and> length xs = length ys
             \<and> set xs \<inter> set printableBytes = {})"
proof (induction l arbitrary: bs cs n)
  case Nil
  then show ?case by simp
next
  case (Cons b l)
  obtain xs ys where x: "bs = printableBytes @ xs" "cs = printableBytes @ ys" "length xs = length ys"
      "set xs \<inter> set printableBytes = {}"
    using Cons.prems(2) by blast
  show ?case
  proof (cases "b \<in> set bs")
    case True
    then have "byteEncoderStep b (bs, cs, n) = (bs, cs, n)" by (simp add: byteEncoderStep_def)
    then have "fold byteEncoderStep l (bs, cs, n) = (bs', cs', n')"
      using Cons.prems(1) by simp
    then show ?thesis using Cons.IH Cons.prems(2) by blast
  next
    case False
    then have "byteEncoderStep b (bs, cs, n) = (bs @ [b], cs @ [256 + n], n + 1)"
      by (simp add: byteEncoderStep_def)
    then have f: "fold byteEncoderStep l (bs @ [b], cs @ [256 + n], n + 1) = (bs', cs', n')"
      using Cons.prems(1) by simp
    have "\<exists>xs' ys'. bs @ [b] = printableBytes @ xs' \<and> cs @ [256 + n] = printableBytes @ ys'
            \<and> length xs' = length ys' \<and> set xs' \<inter> set printableBytes = {}"
      using x False by (intro exI [of _ "xs @ [b]"] exI [of _ "ys @ [256 + n]"]) auto
    then show ?thesis using Cons.IH [OF f] by blast
  qed
qed

lemma zip_map_member: "x \<in> set xs \<Longrightarrow> (x, f x) \<in> set (zip xs (map f xs))"
  by (induction xs) auto

lemma zip_map_value: "(x, v) \<in> set (zip xs (map f xs)) \<Longrightarrow> v = f x"
  by (induction xs) auto

lemma buildByteEncoder_printable:
  assumes "b \<in> set printableBytes"
  shows "buildByteEncoder b = Some [b]"
proof -
  obtain bs cs n where f: "fold byteEncoderStep [0 ..< 256] (printableBytes, printableBytes, 0) = (bs, cs, n)"
    by (cases "fold byteEncoderStep [0 ..< 256] (printableBytes, printableBytes, 0)")
  have "\<exists>xs ys. printableBytes = printableBytes @ xs \<and> printableBytes = printableBytes @ ys
          \<and> length xs = length ys \<and> set xs \<inter> set printableBytes = {}"
    by simp
  then obtain xs ys where x: "bs = printableBytes @ xs" "cs = printableBytes @ ys" "length xs = length ys"
      "set xs \<inter> set printableBytes = {}"
    using byteEncoderFold_printable [OF f] by blast
  have e: "buildByteEncoder = setAll (zip bs (map fromCodePoint cs)) Map.empty"
    by (simp add: buildByteEncoder_def f)
  have z: "zip bs (map fromCodePoint cs)
      = zip printableBytes (map fromCodePoint printableBytes) @ zip xs (map fromCodePoint ys)"
    using x by simp
  have "b \<in> fst ` set (zip bs (map fromCodePoint cs))"
  proof -
    have "(b, fromCodePoint b) \<in> set (zip printableBytes (map fromCodePoint printableBytes))"
      using assms by (rule zip_map_member)
    then show ?thesis using z by force
  qed
  then obtain v where v: "buildByteEncoder b = Some v" using setAll_defined e by metis
  then have "(b, v) \<in> set (zip bs (map fromCodePoint cs))"
    using setAll_lookup [of _ Map.empty b v] e by auto
  then have "(b, v) \<in> set (zip printableBytes (map fromCodePoint printableBytes))
      \<or> (b, v) \<in> set (zip xs (map fromCodePoint ys))"
    using z by simp
  then have "(b, v) \<in> set (zip printableBytes (map fromCodePoint printableBytes))"
    using x(4) assms by (meson disjoint_iff set_zip_leftD)
  then have "v = fromCodePoint b" by (rule zip_map_value)
  moreover have "b < 256" using assms by (auto simp: printableBytes_def)
  ultimately show ?thesis using v by (simp add: fromCodePoint_def)
qed

lemma printable_letters: "97 \<in> set printableBytes" "98 \<in> set printableBytes" "99 \<in> set printableBytes"
  by (simp_all add: printableBytes_def)

lemma exampleBpe_encode:
  "\<exists>tk. initTokenizer exampleBpeJson = Inr (Some tk)
        \<and> encodeWord id (Some tk) (js ''ab'') = Some (Inr [5])
        \<and> encodeWord id (Some tk) (js ''ac'') = Some (Inr [3, 0])"
  by (simp add: initTokenizer_def exampleBpeJson_def js_def encodeWord_def bpe_encodeWord_def
      newBPETokenizer_def modelType_def Let_def orDefault_def orElse_def isByteLevelType_def
      encodeByteLevelBPE_def utf8cp_def isHighSurrogate_def isLowSurrogate_def
      buildByteEncoder_printable printable_letters applyBPE_def findBestMergePair_def
      bpeLoop.simps applyMerge_def)

text \<open>
  Claim C7. Once a tokenizer has been initialized, \<open>encodeWord\<close> returns a list of token ids for
  every input string, whatever code units it holds: no loop runs forever and no error is thrown,
  for the Unigram tokenizer (Viterbi search with byte fallback) and for the BPE tokenizer (byte-level
  merges and the WordPiece fallback) alike. The ids are those of pieces of the word; what the
  vocabulary cannot represent gives the unknown-token id, or in the Unigram tokenizer the byte
  tokens of the code unit, and never an error.
\<close>

theorem encodeWord_never_throws:
  "initTokenizer tj = Inr (Some tk) \<Longrightarrow>
     \<exists>ids. encodeWord nfkc (Some tk) word = Some (Inr ids)
           \<and> (vocabShape tj \<longrightarrow> encodesWord nfkc tk word ids)"
proof (cases tk)
  case (Unigram u)
  assume "initTokenizer tj = Inr (Some tk)"
  then have "newUnigramTokenizer tj = Inr u"
    using Unigram by (auto simp: initTokenizer_def split: if_splits sum.splits)
  then have "idsFromIndex (u_pieces u)" by (rule newUnigramTokenizer_ids)
  then obtain ids where "unigram_encodeWord nfkc u word = Some (Inr ids)" "encodesWord nfkc (Unigram u) word ids"
    using unigram_encodeWord_pieces by blast
  then show ?thesis using Unigram by (auto simp: encodeWord_def)
next
  case (BPE b)
  assume "initTokenizer tj = Inr (Some tk)"
  then have "newBPETokenizer tj = Inr b"
    using BPE by (auto simp: initTokenizer_def split: if_splits sum.splits)
  then have "b_byteEncoder b = buildByteEncoder" by (rule newBPETokenizer_byteEncoder)
  then obtain ids where "bpe_encodeWord b word = Some (Inr ids)" "encodesWord nfkc (BPE b) word ids"
    using bpe_encodeWord_pieces by blast
  then show ?thesis using BPE by (auto simp: encodeWord_def)
qed

theorem encodeWord_never_throws_witness:
  "(\<exists>tk. initTokenizer exampleUnigramJson = Inr (Some tk) \<and> vocabShape exampleUnigramJson
         \<and> encodeWord id (Some tk) (js ''abcd'') = Some (Inr [2, 3, 4, 0])
         \<and> encodesWord id tk (js ''abcd'') [2, 3, 4, 0])
   \<and> (\<exists>tk. initTokenizer exampleWordPieceJson = Inr (Some tk) \<and> vocabShape exampleWordPieceJson
         \<and> encodeWord id (Some tk) (js ''unx'') = Some (Inr [5, 0])
         \<and> encodesWord id tk (js ''unx'') [5, 0])
   \<and> (\<exists>tk. initTokenizer exampleBpeJson = Inr (Some tk) \<and> vocabShape exampleBpeJson
         \<and> encodeWord id (Some tk) (js ''ac'') = Some (Inr [3, 0])
         \<and> encodesWord id tk (js ''ac'') [3, 0])"
proof -
  have s: "vocabShape exampleUnigramJson" "vocabShape exampleWordPieceJson" "vocabShape exampleBpeJson"
    by (simp_all add: vocabShape_def modelType_def exampleUnigramJson_def exampleWordPieceJson_def
        exampleBpeJson_def js_def)
  obtain u where u: "initTokenizer exampleUnigramJson = Inr (Some u)"
      "encodeWord id (Some u) (js ''abcd'') = Some (Inr [2, 3, 4, 0])"
    using exampleUnigram_encode by blast
  have 1: "encodesWord id u (js ''abcd'') [2, 3, 4, 0]"
    using encodeWord_never_throws [OF u(1), of id "js ''abcd''"] u(2) s(1) by auto
  obtain w where w: "initTokenizer exampleWordPieceJson = Inr (Some w)"
      "encodeWord id (Some w) (js ''unx'') = Some (Inr [5, 0])"
    using exampleWordPiece_encode by blast
  have 2: "encodesWord id w (js ''unx'') [5, 0]"
    using encodeWord_never_throws [OF w(1), of id "js ''unx''"] w(2) s(2) by auto
  obtain b where b: "initTokenizer exampleBpeJson = Inr (Some b)"
      "encodeWord id (Some b) (js ''ac'') = Some (Inr [3, 0])"
    using exampleBpe_encode by blast
  have 3: "encodesWord id b (js ''ac'') [3, 0]"
    using encodeWord_never_throws [OF b(1), of id "js ''ac''"] b(2) s(3) by auto
  show ?thesis using s u w b 1 2 3 by blast
qed

text \<open>
  Claim C8. While no tokenizer has been initialized, \<open>encodeWord\<close>, \<open>getSpecialTokenId\<close>,
  \<open>getClsTokenId\<close> and \<open>getSepTokenId\<close> throw the error "Tokenizer not initialized" and return no
  token id; after \<open>initTokenizer\<close> has succeeded each of them returns a result.
\<close>

theorem tokenizer_not_initialized:
  "encodeWord nfkc None word = Some (Inl notInitialized)
   \<and> getSpecialTokenId None token = Inl notInitialized
   \<and> getClsTokenId None = Inl notInitialized
   \<and> getSepTokenId None = Inl notInitialized
   \<and> (initTokenizer tj = Inr st \<longrightarrow>
        (\<exists>ids. encodeWord nfkc st word = Some (Inr ids))
        \<and> (\<exists>i. getSpecialTokenId st token = Inr i)
        \<and> (\<exists>i. getClsTokenId st = Inr i)
        \<and> (\<exists>i. getSepTokenId st = Inr i))"
proof -
  have "initTokenizer tj = Inr st \<Longrightarrow> \<exists>tk. st = Some tk"
    by (auto simp: initTokenizer_def split: if_splits sum.splits)
  then show ?thesis
    using encodeWord_returns [of tj _ nfkc word]
    by (auto simp: encodeWord_def getSpecialTokenId_def getClsTokenId_def getSepTokenId_def
        split: tokenizer.splits)
qed

theorem tokenizer_not_initialized_witness:
  "encodeWord id None (js ''unx'') = Some (Inl (Error ''Tokenizer not initialized''))
   \<and> getSpecialTokenId None (js ''<<ENT>>'') = Inl (Error ''Tokenizer not initialized'')
   \<and> (\<exists>st. initTokenizer exampleUnigramJson = Inr st
         \<and> (\<exists>ids. encodeWord id st (js ''unx'') = Some (Inr ids))
         \<and> getSpecialTokenId st (js ''<<ENT>>'') = Inr 7
         \<and> getClsTokenId st = Inr 1
         \<and> getSepTokenId st = Inr 2)"
proof -
  obtain st where st: "initTokenizer exampleUnigramJson = Inr st"
    using exampleUnigram_encode by blast
  have a: "\<exists>ids. encodeWord id st (js ''unx'') = Some (Inr ids)"
    using tokenizer_not_initialized [of id "js ''unx''" "js ''<<ENT>>''" exampleUnigramJson st] st by blast
  have b: "getSpecialTokenId st (js ''<<ENT>>'') = Inr 7 \<and> getClsTokenId st = Inr 1 \<and> getSepTokenId st = Inr 2"
    using st by (auto simp: initTokenizer_def exampleUnigramJson_def js_def newUnigramTokenizer_def modelType_def
      Let_def orDefault_def orElse_def getSpecialTokenId_def getClsTokenId_def getSepTokenId_def
      unigram_getTokenId_def hexVal_def)
  show ?thesis
    using tokenizer_not_initialized [of id "js ''unx''" "js ''<<ENT>>''" exampleUnigramJson st] st a b
    by (auto simp: notInitialized_def)
qed

section \<open>Processor: batch construction\<close>

text \<open>A call that may throw, in a program whose loops may not end: \<open>None\<close> is a computation that
  does not return, \<open>Some (Inl e)\<close> the thrown error, \<open>Some (Inr x)\<close> the result.\<close>

type_synonym 'a result = "(js_error + 'a) option"

definition bindR :: "'a result \<Rightarrow> ('a \<Rightarrow> 'b result) \<Rightarrow> 'b result" where
  "bindR m f = (case m of None \<Rightarrow> None | Some (Inl e) \<Rightarrow> Some (Inl e) | Some (Inr x) \<Rightarrow> f x)"

definition returnR :: "'a \<Rightarrow> 'a result" where
  "returnR x = Some (Inr x)"

definition liftE :: "js_error + 'a \<Rightarrow> 'a result" where
  "liftE r = Some r"

text \<open>\<open>s.split(/\s+/)\<close>: the pieces between maximal runs of white space; a run at either end of
  the string leaves an empty piece there. \<open>acc\<close> is the current piece, reversed.\<close>

function splitWsAcc :: "jsstring \<Rightarrow> jsstring \<Rightarrow> jsstring list" where
  "splitWsAcc acc [] = [rev acc]"
| "splitWsAcc acc (c # cs) =
     (if isSpace c then rev acc # splitWsAcc [] (dropWhile isSpace cs)
      else splitWsAcc (c # acc) cs)"
  by pat_completeness auto
termination
  by (relation "measure (\<lambda>(acc, s). length s)") (auto simp: length_dropWhile_le less_Suc_eq_le)

definition splitWs :: "jsstring \<Rightarrow> jsstring list" where
  "splitWs s = splitWsAcc [] s"

text \<open>The tokenizer calls of one label: \<open>for (const lw of entity.split(/\s+/)) promptTokenIds.push(...encodeWord(lw))\<close>.\<close>

fun encodeWords :: "(jsstring \<Rightarrow> jsstring) \<Rightarrow> tokenizer option \<Rightarrow> jsstring list \<Rightarrow> int list result" where
  "encodeWords nfkc tok [] = returnR []"
| "encodeWords nfkc tok (w # ws) =
     bindR (encodeWord nfkc tok w) (\<lambda>ids.
     bindR (encodeWords nfkc tok ws) (\<lambda>rest.
     returnR (ids @ rest)))"

fun promptTokens :: "(jsstring \<Rightarrow> jsstring) \<Rightarrow> tokenizer option \<Rightarrow> int \<Rightarrow> jsstring list \<Rightarrow> int list result" where
  "promptTokens nfkc tok entTokenId [] = returnR []"
| "promptTokens nfkc tok entTokenId (entity # entities) =
     bindR (encodeWords nfkc tok (splitWs entity)) (\<lambda>labelIds.
     bindR (promptTokens nfkc tok entTokenId entities) (\<lambda>rest.
     returnR (entTokenId # labelIds @ rest)))"

text \<open>The loop over the words of the text: the ids of each word, and in \<open>wordsMask\<close> the 1-based
  number of the word at its first sub-word and 0 at the others.\<close>

fun wordTokens ::
  "(jsstring \<Rightarrow> jsstring) \<Rightarrow> tokenizer option \<Rightarrow> nat \<Rightarrow> (jsstring \<times> nat \<times> nat) list
     \<Rightarrow> (int list \<times> nat list) result" where
  "wordTokens nfkc tok wordCounter [] = returnR ([], [])"
| "wordTokens nfkc tok wordCounter ((word, startIdx, endIdx) # ws) =
     bindR (encodeWord nfkc tok word) (\<lambda>wordTokenIds.
     bindR (wordTokens nfkc tok (wordCounter + 1) ws) (\<lambda>(ids, mask).
     returnR (wordTokenIds @ ids,
              (case wordTokenIds of [] \<Rightarrow> [] | _ # r \<Rightarrow> wordCounter # replicate (length r) 0) @ mask)))"

record tokenSequence =
  q_inputIds :: "int list"
  q_attentionMask :: "nat list"
  q_wordsMask :: "nat list"
  q_words :: "(jsstring \<times> nat \<times> nat) list"
  q_wordsStartIdx :: "nat list"
  q_wordsEndIdx :: "nat list"
  q_tokens :: "jsstring list"

definition buildTokenSequence ::
  "(jsstring \<Rightarrow> jsstring) \<Rightarrow> tokenizer option \<Rightarrow> jsstring \<Rightarrow> jsstring list \<Rightarrow> jsstring \<Rightarrow> jsstring
     \<Rightarrow> tokenSequence result" where
  "buildTokenSequence nfkc tok text entities entToken sepToken =
     bindR (liftE (getSpecialTokenId tok entToken)) (\<lambda>entTokenId.
     bindR (liftE (getSpecialTokenId tok sepToken)) (\<lambda>sepTokenId.
     bindR (liftE (getClsTokenId tok)) (\<lambda>clsTokenId.
     bindR (promptTokens nfkc tok entTokenId entities) (\<lambda>labelTokenIds.
     (let promptTokenIds = labelTokenIds @ [sepTokenId];
          words = splitWords text
      in bindR (wordTokens nfkc tok 1 words) (\<lambda>(wordIds, wordMask).
         returnR \<lparr> q_inputIds = clsTokenId # promptTokenIds @ wordIds,
                   q_attentionMask = 1 # replicate (length promptTokenIds) 1 @ replicate (length wordIds) 1,
                   q_wordsMask = 0 # replicate (length promptTokenIds) 0 @ wordMask,
                   q_words = words,
                   q_wordsStartIdx = map (\<lambda>(w, s, e). s) words,
                   q_wordsEndIdx = map (\<lambda>(w, s, e). e) words,
                   q_tokens = map (\<lambda>(w, s, e). w) words \<rparr>))))))"

record processorOutput =
  inputIds :: "int list list"
  attentionMask :: "nat list list"
  wordsMask :: "nat list list"
  textLengths :: "nat list list"
  batchTokens :: "jsstring list list"
  batchWordsStartIdx :: "nat list list"
  batchWordsEndIdx :: "nat list list"
  spanIdx :: "(nat \<times> nat) list list option"
  spanMask :: "nat list list option"

text \<open>\<open>while (xs.length < maxLen) xs.push(0)\<close>\<close>

definition padTo :: "nat \<Rightarrow> 'a \<Rightarrow> 'a list \<Rightarrow> 'a list" where
  "padTo n z xs = xs @ replicate (n - length xs) z"

text \<open>\<open>Math.max(...lists.map(l => l.length))\<close>; of no lists it is \<open>-Infinity\<close>, and then there is
  nothing to pad.\<close>

definition maxLength :: "'a list list \<Rightarrow> nat" where
  "maxLength ls = fold max (map length ls) 0"

fun buildSequences ::
  "(jsstring \<Rightarrow> jsstring) \<Rightarrow> tokenizer option \<Rightarrow> jsstring list \<Rightarrow> jsstring list \<Rightarrow> jsstring \<Rightarrow> jsstring
     \<Rightarrow> tokenSequence list result" where
  "buildSequences nfkc tok [] entities entToken sepToken = returnR []"
| "buildSequences nfkc tok (text # texts) entities entToken sepToken =
     bindR (buildTokenSequence nfkc tok text entities entToken sepToken) (\<lambda>seq.
     bindR (buildSequences nfkc tok texts entities entToken sepToken) (\<lambda>rest.
     returnR (seq # rest)))"

definition prepareBatch ::
  "(jsstring \<Rightarrow> jsstring) \<Rightarrow> tokenizer option \<Rightarrow> jsstring list \<Rightarrow> jsstring list \<Rightarrow> jsstring \<Rightarrow> jsstring
     \<Rightarrow> processorOutput result" where
  "prepareBatch nfkc tok texts entities entToken sepToken =
     bindR (buildSequences nfkc tok texts entities entToken sepToken) (\<lambda>seqs.
     (let maxLen = maxLength (map q_inputIds seqs)
      in returnR \<lparr> inputIds = map (\<lambda>q. padTo maxLen 0 (q_inputIds q)) seqs,
                   attentionMask = map (\<lambda>q. padTo maxLen 0 (q_attentionMask q)) seqs,
                   wordsMask = map (\<lambda>q. padTo maxLen 0 (q_wordsMask q)) seqs,
                   textLengths = map (\<lambda>q. [length (q_words q)]) seqs,
                   batchTokens = map q_tokens seqs,
                   batchWordsStartIdx = map q_wordsStartIdx seqs,
                   batchWordsEndIdx = map q_wordsEndIdx seqs,
                   spanIdx = None, spanMask = None \<rparr>))"

text \<open>The candidate spans of one text, before the batch is padded: for every word \<open>i\<close> and every
  width \<open>w < maxWidth\<close> the pair \<open>[i, i + w]\<close> with mask 1 when \<open>i + w\<close> is a word, else \<open>[0, 0]\<close>
  with mask 0; and one dummy span when that gives none.\<close>

definition spanRow :: "nat \<Rightarrow> nat \<Rightarrow> nat \<Rightarrow> ((nat \<times> nat) \<times> nat) list" where
  "spanRow numWords maxWidth i =
     map (\<lambda>w. (let end = i + w in if end < numWords then ((i, end), 1) else ((0, 0), 0))) [0 ..< maxWidth]"

definition candidateSpans :: "nat \<Rightarrow> nat \<Rightarrow> ((nat \<times> nat) \<times> nat) list" where
  "candidateSpans numWords maxWidth =
     (let spans = concat (map (spanRow numWords maxWidth) [0 ..< numWords])
      in if length spans = 0 then [((0, 0), 0)] else spans)"

definition prepareSpanBatch ::
  "(jsstring \<Rightarrow> jsstring) \<Rightarrow> tokenizer option \<Rightarrow> jsstring list \<Rightarrow> jsstring list \<Rightarrow> nat \<Rightarrow> jsstring \<Rightarrow> jsstring
     \<Rightarrow> processorOutput result" where
  "prepareSpanBatch nfkc tok texts entities maxWidth entToken sepToken =
     bindR (buildSequences nfkc tok texts entities entToken sepToken) (\<lambda>seqs.
     (let allSpans = map (\<lambda>q. candidateSpans (length (q_words q)) maxWidth) seqs;
          maxLen = maxLength (map q_inputIds seqs);
          maxSpans = maxLength allSpans
      in returnR \<lparr> inputIds = map (\<lambda>q. padTo maxLen 0 (q_inputIds q)) seqs,
                   attentionMask = map (\<lambda>q. padTo maxLen 0 (q_attentionMask q)) seqs,
                   wordsMask = map (\<lambda>q. padTo maxLen 0 (q_wordsMask q)) seqs,
                   textLengths = map (\<lambda>q. [length (q_words q)]) seqs,
                   batchTokens = map q_tokens seqs,
                   batchWordsStartIdx = map q_wordsStartIdx seqs,
                   batchWordsEndIdx = map q_wordsEndIdx seqs,
                   spanIdx = Some (map (\<lambda>sp. padTo maxSpans (0, 0) (map fst sp)) allSpans),
                   spanMask = Some (map (\<lambda>sp. padTo maxSpans 0 (map snd sp)) allSpans) \<rparr>))"

subsection \<open>The processor returns once the tokenizer is initialized\<close>

lemma bindR_Inr: "bindR m f = Some (Inr y) \<Longrightarrow> \<exists>x. m = Some (Inr x) \<and> f x = Some (Inr y)"
  by (auto simp: bindR_def split: option.splits sum.splits)

lemma bindR_returns: "m = Some (Inr x) \<Longrightarrow> bindR m f = f x"
  by (simp add: bindR_def)

lemma concat_rows_length:
  "(\<And>i. length (f i) = m) \<Longrightarrow> length (concat (map f [0 ..< n])) = n * m"
  by (induction n) auto

lemma concat_rows_nth:
  "(\<And>i. length (f i) = m) \<Longrightarrow> i < n \<Longrightarrow> w < m \<Longrightarrow> concat (map f [0 ..< n]) ! (i * m + w) = f i ! w"
proof (induction n)
  case 0
  then show ?case by simp
next
  case (Suc n)
  have len: "length (concat (map f [0 ..< n])) = n * m" using Suc.prems(1) by (rule concat_rows_length)
  show ?case
  proof (cases "i < n")
    case True
    then have "i * m + w < n * m"
      using Suc.prems(3) by (metis (no_types, lifting) add.commute add_less_cancel_left less_le_trans mult.commute mult_Suc_right mult_le_mono2 Suc_leI)
    then show ?thesis using Suc True len by (simp add: nth_append)
  next
    case False
    then have "i = n" using Suc.prems(2) by simp
    then show ?thesis using len Suc.prems by (simp add: nth_append)
  qed
qed

lemma spanRow_length: "length (spanRow numWords maxWidth i) = maxWidth"
  by (simp add: spanRow_def)

lemma candidateSpans_nonempty: "candidateSpans numWords maxWidth \<noteq> []"
  by (auto simp: candidateSpans_def Let_def)

lemma candidateSpans_no_words: "candidateSpans 0 maxWidth = [((0, 0), 0)]"
  by (simp add: candidateSpans_def)

lemma candidateSpans_rows:
  assumes "0 < numWords" and "0 < maxWidth"
  shows "candidateSpans numWords maxWidth = concat (map (spanRow numWords maxWidth) [0 ..< numWords])"
    and "length (concat (map (spanRow numWords maxWidth) [0 ..< numWords])) = numWords * maxWidth"
proof -
  show l: "length (concat (map (spanRow numWords maxWidth) [0 ..< numWords])) = numWords * maxWidth"
    using concat_rows_length [of "spanRow numWords maxWidth" maxWidth numWords]
    by (simp add: spanRow_length)
  have "0 < numWords * maxWidth" using assms by simp
  then have ne: "(length (concat (map (spanRow numWords maxWidth) [0 ..< numWords])) = 0) = False"
    using l by simp
  show "candidateSpans numWords maxWidth = concat (map (spanRow numWords maxWidth) [0 ..< numWords])"
    by (simp only: candidateSpans_def Let_def ne if_False)
qed

lemma candidateSpans_length:
  "0 < numWords \<Longrightarrow> 0 < maxWidth \<Longrightarrow> length (candidateSpans numWords maxWidth) = numWords * maxWidth"
  using candidateSpans_rows by simp

lemma candidateSpans_nth:
  assumes "i < numWords" and "w < maxWidth"
  shows "candidateSpans numWords maxWidth ! (i * maxWidth + w)
         = (if i + w < numWords then ((i, i + w), 1) else ((0, 0), 0))"
proof -
  have c: "candidateSpans numWords maxWidth = concat (map (spanRow numWords maxWidth) [0 ..< numWords])"
    using candidateSpans_rows(1) [of numWords maxWidth] assms by simp
  have "concat (map (spanRow numWords maxWidth) [0 ..< numWords]) ! (i * maxWidth + w)
        = spanRow numWords maxWidth i ! w"
    using concat_rows_nth [of "spanRow numWords maxWidth" maxWidth i numWords w] assms
    by (simp add: spanRow_length)
  then show ?thesis using c assms by (simp add: spanRow_def Let_def)
qed

lemma buildTokenSequence_words:
  "buildTokenSequence nfkc tok text entities entToken sepToken = Some (Inr q) \<Longrightarrow> q_words q = splitWords text"
  unfolding buildTokenSequence_def Let_def
  by (auto dest!: bindR_Inr simp: returnR_def split: prod.splits)

lemma buildSequences_words:
  "buildSequences nfkc tok texts entities entToken sepToken = Some (Inr seqs) \<Longrightarrow>
     map q_words seqs = map splitWords texts"
proof (induction texts arbitrary: seqs)
  case Nil
  then show ?case by (simp add: returnR_def)
next
  case (Cons t texts)
  from Cons.prems obtain q rest where
    q: "buildTokenSequence nfkc tok t entities entToken sepToken = Some (Inr q)" and
    r: "buildSequences nfkc tok texts entities entToken sepToken = Some (Inr rest)" and
    s: "seqs = q # rest"
    by (auto dest!: bindR_Inr simp: returnR_def)
  show ?case using Cons.IH [OF r] buildTokenSequence_words [OF q] s by simp
qed

lemma initTokenizer_Some: "initTokenizer tj = Inr tok \<Longrightarrow> \<exists>tk. tok = Some tk"
  by (auto simp: initTokenizer_def split: if_splits sum.splits)

lemma encodeWords_returns:
  "initTokenizer tj = Inr tok \<Longrightarrow> \<exists>ids. encodeWords nfkc tok ws = Some (Inr ids)"
proof (induction ws)
  case Nil
  show ?case by (simp add: returnR_def)
next
  case (Cons w ws)
  obtain tk where tk: "tok = Some tk" using initTokenizer_Some [OF Cons.prems] by blast
  obtain ids where a: "encodeWord nfkc tok w = Some (Inr ids)"
    using encodeWord_returns [of tj tk nfkc w] Cons.prems tk by auto
  obtain rest where b: "encodeWords nfkc tok ws = Some (Inr rest)" using Cons by blast
  show ?case by (simp add: a b bindR_def returnR_def)
qed

lemma promptTokens_returns:
  "initTokenizer tj = Inr tok \<Longrightarrow> \<exists>ids. promptTokens nfkc tok entTokenId entities = Some (Inr ids)"
proof (induction entities)
  case Nil
  show ?case by (simp add: returnR_def)
next
  case (Cons e es)
  obtain ids where a: "encodeWords nfkc tok (splitWs e) = Some (Inr ids)"
    using encodeWords_returns [OF Cons.prems] by blast
  obtain rest where b: "promptTokens nfkc tok entTokenId es = Some (Inr rest)" using Cons by blast
  show ?case by (simp add: a b bindR_def returnR_def)
qed

lemma wordTokens_returns:
  "initTokenizer tj = Inr tok \<Longrightarrow> \<exists>r. wordTokens nfkc tok k ws = Some (Inr r)"
proof (induction ws arbitrary: k)
  case Nil
  show ?case by (simp add: returnR_def)
next
  case (Cons x ws)
  obtain w s e where x: "x = (w, s, e)" by (cases x)
  obtain tk where tk: "tok = Some tk" using initTokenizer_Some [OF Cons.prems] by blast
  obtain ids where a: "encodeWord nfkc tok w = Some (Inr ids)"
    using encodeWord_returns [of tj tk nfkc w] Cons.prems tk by auto
  obtain r where b: "wordTokens nfkc tok (Suc k) ws = Some (Inr r)" using Cons by blast
  show ?case by (simp add: x a b bindR_def returnR_def split: prod.splits)
qed

lemma buildTokenSequence_returns:
  assumes "initTokenizer tj = Inr tok"
  shows "\<exists>q. buildTokenSequence nfkc tok text entities entToken sepToken = Some (Inr q)"
proof -
  obtain tk where tk: "tok = Some tk" using initTokenizer_Some [OF assms] by blast
  have "\<exists>e. getSpecialTokenId tok entToken = Inr e"
    using tk by (cases tk) (simp_all add: getSpecialTokenId_def)
  then obtain e where e: "getSpecialTokenId tok entToken = Inr e" by blast
  have "\<exists>s. getSpecialTokenId tok sepToken = Inr s"
    using tk by (cases tk) (simp_all add: getSpecialTokenId_def)
  then obtain s where s: "getSpecialTokenId tok sepToken = Inr s" by blast
  have "\<exists>c. getClsTokenId tok = Inr c"
    using tk by (cases tk) (simp_all add: getClsTokenId_def)
  then obtain c where c: "getClsTokenId tok = Inr c" by blast
  obtain p where p: "promptTokens nfkc tok e entities = Some (Inr p)"
    using promptTokens_returns [OF assms] by blast
  obtain r where r: "wordTokens nfkc tok 1 (splitWords text) = Some (Inr r)"
    using wordTokens_returns [OF assms] by blast
  show ?thesis using r
    by (simp add: buildTokenSequence_def e s c p bindR_def returnR_def liftE_def Let_def split: prod.splits)
qed

lemma buildSequences_returns:
  "initTokenizer tj = Inr tok \<Longrightarrow> \<exists>seqs. buildSequences nfkc tok texts entities entToken sepToken = Some (Inr seqs)"
proof (induction texts)
  case Nil
  show ?case by (simp add: returnR_def)
next
  case (Cons t texts)
  obtain q where a: "buildTokenSequence nfkc tok t entities entToken sepToken = Some (Inr q)"
    using buildTokenSequence_returns [OF Cons.prems] by blast
  obtain rest where b: "buildSequences nfkc tok texts entities entToken sepToken = Some (Inr rest)"
    using Cons by blast
  show ?case by (simp add: a b bindR_def returnR_def)
qed

lemma prepareSpanBatch_returns:
  "initTokenizer tj = Inr tok \<Longrightarrow>
     \<exists>out. prepareSpanBatch nfkc tok texts entities maxWidth entToken sepToken = Some (Inr out)"
  using buildSequences_returns [of tj tok nfkc texts entities entToken sepToken]
  by (auto simp: prepareSpanBatch_def bindR_def returnR_def Let_def)

lemma prepareBatch_returns:
  "initTokenizer tj = Inr tok \<Longrightarrow>
     \<exists>out. prepareBatch nfkc tok texts entities entToken sepToken = Some (Inr out)"
  using buildSequences_returns [of tj tok nfkc texts entities entToken sepToken]
  by (auto simp: prepareBatch_def bindR_def returnR_def Let_def)

lemma prepareSpanBatch_spanIdx:
  assumes "prepareSpanBatch nfkc tok texts entities maxWidth entToken sepToken = Some (Inr out)"
  shows "spanIdx out = Some (map (\<lambda>t. padTo (maxLength (map (\<lambda>t. candidateSpans (length (splitWords t)) maxWidth) texts)) (0, 0)
                                      (map fst (candidateSpans (length (splitWords t)) maxWidth))) texts)
       \<and> spanMask out = Some (map (\<lambda>t. padTo (maxLength (map (\<lambda>t. candidateSpans (length (splitWords t)) maxWidth) texts)) 0
                                      (map snd (candidateSpans (length (splitWords t)) maxWidth))) texts)"
proof -
  obtain seqs where s: "buildSequences nfkc tok texts entities entToken sepToken = Some (Inr seqs)"
    and o: "out = \<lparr> inputIds = map (\<lambda>q. padTo (maxLength (map q_inputIds seqs)) 0 (q_inputIds q)) seqs,
                   attentionMask = map (\<lambda>q. padTo (maxLength (map q_inputIds seqs)) 0 (q_attentionMask q)) seqs,
                   wordsMask = map (\<lambda>q. padTo (maxLength (map q_inputIds seqs)) 0 (q_wordsMask q)) seqs,
                   textLengths = map (\<lambda>q. [length (q_words q)]) seqs,
                   batchTokens = map q_tokens seqs,
                   batchWordsStartIdx = map q_wordsStartIdx seqs,
                   batchWordsEndIdx = map q_wordsEndIdx seqs,
                   spanIdx = Some (map (\<lambda>sp. padTo (maxLength (map (\<lambda>q. candidateSpans (length (q_words q)) maxWidth) seqs)) (0, 0) (map fst sp))
                                    (map (\<lambda>q. candidateSpans (length (q_words q)) maxWidth) seqs)),
                   spanMask = Some (map (\<lambda>sp. padTo (maxLength (map (\<lambda>q. candidateSpans (length (q_words q)) maxWidth) seqs)) 0 (map snd sp))
                                    (map (\<lambda>q. candidateSpans (length (q_words q)) maxWidth) seqs)) \<rparr>"
    using assms unfolding prepareSpanBatch_def Let_def
    by (auto dest!: bindR_Inr simp: returnR_def)
  have w: "map q_words seqs = map splitWords texts" using buildSequences_words [OF s] .
  have "map (\<lambda>q. candidateSpans (length (q_words q)) maxWidth) seqs
        = map (\<lambda>ws. candidateSpans (length ws) maxWidth) (map q_words seqs)" by simp
  also have "\<dots> = map (\<lambda>t. candidateSpans (length (splitWords t)) maxWidth) texts"
    unfolding w by simp
  finally have c: "map (\<lambda>q. candidateSpans (length (q_words q)) maxWidth) seqs
        = map (\<lambda>t. candidateSpans (length (splitWords t)) maxWidth) texts" .
  show ?thesis unfolding o by (simp add: c comp_def)
qed

lemma padTo_split: "\<exists>pad. padTo n z xs = xs @ replicate pad z"
  by (auto simp: padTo_def)

subsection \<open>A small batch, evaluated\<close>

definition exampleTokenizer :: "tokenizer option" where
  "exampleTokenizer = (case initTokenizer exampleUnigramJson of Inr t \<Rightarrow> t | Inl e \<Rightarrow> None)"


lemma exampleTokenizer_b: "encodeWord id exampleTokenizer (js ''b'') = Some (Inr [1, 3])"
  by (simp add: exampleTokenizer_def initTokenizer_def exampleUnigramJson_def js_def encodeWord_def unigram_encodeWord_def
      newUnigramTokenizer_def modelType_def Let_def orDefault_def orElse_def viterbi_def
      replaceSpaces_def viterbiForward_def viterbiStep_def viterbiPiece_def viterbiFallback_def
      slice_def scoreAdd_def utf8cp_def isHighSurrogate_def isLowSurrogate_def hexVal_def
      viterbiBack.simps upt_rec)

lemma exampleTokenizer_special:
  "getSpecialTokenId exampleTokenizer (js ''<<ENT>>'') = Inr 7"
  "getSpecialTokenId exampleTokenizer (js ''<<SEP>>'') = Inr 0"
  "getClsTokenId exampleTokenizer = Inr 1"
  by (simp_all add: exampleTokenizer_def initTokenizer_def exampleUnigramJson_def js_def
      newUnigramTokenizer_def modelType_def Let_def orDefault_def orElse_def hexVal_def
      getSpecialTokenId_def getClsTokenId_def unigram_getTokenId_def)

lemma example_splitWs: "splitWs (js ''b'') = [js ''b'']"
  by (simp add: splitWs_def js_def isSpace_def)

lemma example_splitWords:
  "splitWords (js ''b b'') = [(js ''b'', 0, 1), (js ''b'', 2, 3)]"
  "splitWords (js '' '') = []"
  by (simp_all add: splitWords_def js_def isSpace_def isWordChar_def wordMatch_def Let_def)

lemma example_promptTokens: "promptTokens id exampleTokenizer 7 [js ''b''] = Some (Inr [7, 1, 3])"
  by (simp add: exampleTokenizer_b example_splitWs bindR_def returnR_def)

lemma example_candidateSpans: "candidateSpans (Suc (Suc 0)) 2 = [((0, 0), 1), ((0, 1), 1), ((1, 1), 1), ((0, 0), 0)]"
  by (simp add: candidateSpans_def spanRow_def upt_rec Let_def)

lemma example_candidateSpans_empty: "candidateSpans 0 2 = [((0, 0), 0)]"
  by (simp add: candidateSpans_def)

lemma example_wordTokens: "wordTokens id exampleTokenizer (Suc 0) [(js ''b'', 0, Suc 0), (js ''b'', 2, 3)] = Some (Inr ([1, 3, 1, 3], [1, 0, 2, 0]))"
  by (simp add: exampleTokenizer_b bindR_def returnR_def)

lemma example_sequences1:
  "buildTokenSequence id exampleTokenizer (js ''b b'') [js ''b''] (js ''<<ENT>>'') (js ''<<SEP>>'')
     = Some (Inr \<lparr> q_inputIds = [1, 7, 1, 3, 0, 1, 3, 1, 3], q_attentionMask = [1, 1, 1, 1, 1, 1, 1, 1, 1],
                      q_wordsMask = [0, 0, 0, 0, 0, 1, 0, 2, 0],
                      q_words = [(js ''b'', 0, 1), (js ''b'', 2, 3)],
                      q_wordsStartIdx = [0, 2], q_wordsEndIdx = [1, 3], q_tokens = [js ''b'', js ''b''] \<rparr>)"
  by (simp add: buildTokenSequence_def exampleTokenizer_special example_promptTokens example_wordTokens
      example_splitWords bindR_def returnR_def liftE_def Let_def del: promptTokens.simps wordTokens.simps)

lemma example_sequences2:
  "buildTokenSequence id exampleTokenizer (js '' '') [js ''b''] (js ''<<ENT>>'') (js ''<<SEP>>'')
     = Some (Inr \<lparr> q_inputIds = [1, 7, 1, 3, 0], q_attentionMask = [1, 1, 1, 1, 1],
                      q_wordsMask = [0, 0, 0, 0, 0], q_words = [],
                      q_wordsStartIdx = [], q_wordsEndIdx = [], q_tokens = [] \<rparr>)"
  by (simp add: buildTokenSequence_def exampleTokenizer_special example_promptTokens
      example_splitWords bindR_def returnR_def liftE_def Let_def del: promptTokens.simps)

lemma exampleSpanBatch:
  "\<exists>out. prepareSpanBatch id exampleTokenizer [js ''b b'', js '' ''] [js ''b''] 2 (js ''<<ENT>>'') (js ''<<SEP>>'') = Some (Inr out)
     \<and> inputIds out = [[1, 7, 1, 3, 0, 1, 3, 1, 3], [1, 7, 1, 3, 0, 0, 0, 0, 0]]
     \<and> wordsMask out = [[0, 0, 0, 0, 0, 1, 0, 2, 0], [0, 0, 0, 0, 0, 0, 0, 0, 0]]
     \<and> spanIdx out = Some [[(0, 0), (0, 1), (1, 1), (0, 0)], [(0, 0), (0, 0), (0, 0), (0, 0)]]
     \<and> spanMask out = Some [[1, 1, 1, 0], [0, 0, 0, 0]]"
  by (simp add: prepareSpanBatch_def example_sequences1 example_sequences2 bindR_def returnR_def Let_def
      example_candidateSpans example_candidateSpans_empty padTo_def maxLength_def del: buildTokenSequence_def)

text \<open>
  Claim C9. For every text of a batch, \<open>prepareSpanBatch\<close> makes, before the batch is padded,
  exactly \<open>numWords * maxWidth\<close> candidate spans (for a width bound of at least 1): the span at
  \<open>i * maxWidth + w\<close> is \<open>[i, i + w]\<close> with mask 1 when \<open>i + w\<close> is a word, and is kept as
  \<open>[0, 0]\<close> with mask 0 when it is not. A text with no words gets exactly one dummy span with
  mask 0, so the span tensors are never empty.
\<close>

theorem prepareSpanBatch_candidate_spans:
  assumes "prepareSpanBatch nfkc tok texts entities maxWidth entToken sepToken = Some (Inr out)"
    and "k < length texts"
    and "numWords = length (splitWords (texts ! k))"
    and "spans = candidateSpans numWords maxWidth"
  shows "(\<exists>idx mask pad. spanIdx out = Some idx \<and> spanMask out = Some mask
            \<and> idx ! k = map fst spans @ replicate pad (0, 0) \<and> mask ! k = map snd spans @ replicate pad 0)
         \<and> spans \<noteq> []
         \<and> (numWords = 0 \<longrightarrow> spans = [((0, 0), 0)])
         \<and> (0 < numWords \<and> 0 < maxWidth \<longrightarrow>
               length spans = numWords * maxWidth
               \<and> (\<forall>i < numWords. \<forall>w < maxWidth.
                     spans ! (i * maxWidth + w) = (if i + w < numWords then ((i, i + w), 1) else ((0, 0), 0))))"
proof -
  let ?m = "maxLength (map (\<lambda>t. candidateSpans (length (splitWords t)) maxWidth) texts)"
  have i: "spanIdx out = Some (map (\<lambda>t. padTo ?m (0, 0) (map fst (candidateSpans (length (splitWords t)) maxWidth))) texts)"
    and m: "spanMask out = Some (map (\<lambda>t. padTo ?m 0 (map snd (candidateSpans (length (splitWords t)) maxWidth))) texts)"
    using prepareSpanBatch_spanIdx [OF assms(1)] by auto
  have "padTo ?m (0, 0) (map fst spans) = map fst spans @ replicate (?m - length spans) (0, 0)"
    and "padTo ?m 0 (map snd spans) = map snd spans @ replicate (?m - length spans) 0"
    by (simp_all add: padTo_def)
  then have a: "\<exists>idx mask pad. spanIdx out = Some idx \<and> spanMask out = Some mask
            \<and> idx ! k = map fst spans @ replicate pad (0, 0) \<and> mask ! k = map snd spans @ replicate pad 0"
    using i m assms(2,3,4) by simp
  have b: "spans \<noteq> []" using assms(4) candidateSpans_nonempty by simp
  have c: "numWords = 0 \<longrightarrow> spans = [((0, 0), 0)]" using assms(4) candidateSpans_no_words by simp
  have d: "0 < numWords \<and> 0 < maxWidth \<longrightarrow> length spans = numWords * maxWidth"
    using assms(4) candidateSpans_length by simp
  have e: "\<forall>i < numWords. \<forall>w < maxWidth.
      spans ! (i * maxWidth + w) = (if i + w < numWords then ((i, i + w), 1) else ((0, 0), 0))"
    using assms(4) candidateSpans_nth by simp
  show ?thesis using a b c d e by blast
qed

theorem prepareSpanBatch_candidate_spans_witness:
  "\<exists>out. prepareSpanBatch id exampleTokenizer [js ''b b'', js '' ''] [js ''b''] 2 (js ''<<ENT>>'') (js ''<<SEP>>'') = Some (Inr out)
     \<and> spanIdx out = Some [[(0, 0), (0, 1), (1, 1), (0, 0)], [(0, 0), (0, 0), (0, 0), (0, 0)]]
     \<and> spanMask out = Some [[1, 1, 1, 0], [0, 0, 0, 0]]
     \<and> length (candidateSpans (length (splitWords (js ''b b''))) 2) = 2 * 2
     \<and> candidateSpans (length (splitWords (js '' ''))) 2 = [((0, 0), 0)]"
proof -
  obtain out where o: "prepareSpanBatch id exampleTokenizer [js ''b b'', js '' ''] [js ''b''] 2 (js ''<<ENT>>'') (js ''<<SEP>>'') = Some (Inr out)"
    and i: "spanIdx out = Some [[(0, 0), (0, 1), (1, 1), (0, 0)], [(0, 0), (0, 0), (0, 0), (0, 0)]]"
    and m: "spanMask out = Some [[1, 1, 1, 0], [0, 0, 0, 0]]"
    using exampleSpanBatch by blast
  have a: "length (candidateSpans (length (splitWords (js ''b b''))) 2) = 2 * 2"
    using prepareSpanBatch_candidate_spans [OF o, of 0 "length (splitWords (js ''b b''))" "candidateSpans (length (splitWords (js ''b b''))) 2"]
    by (simp add: example_splitWords)
  have b: "candidateSpans (length (splitWords (js '' ''))) 2 = [((0, 0), 0)]"
    using prepareSpanBatch_candidate_spans [OF o, of 1 "length (splitWords (js '' ''))" "candidateSpans (length (splitWords (js '' ''))) 2"]
    by (simp add: example_splitWords)
  show ?thesis using o i m a b by blast
qed

section \<open>Decoder\<close>

record entity =
  e_text :: jsstring
  e_label :: jsstring
  e_start :: int
  e_end :: int
  e_score :: real


text \<open>\<open>candidate.start < a.end && candidate.end > a.start\<close>\<close>

definition overlaps :: "entity \<Rightarrow> entity \<Rightarrow> bool" where
  "overlaps c a \<longleftrightarrow> e_start c < e_end a \<and> e_end c > e_start a"






subsection \<open>Span-level decoder\<close>









subsection \<open>Token-level decoder\<close>












section \<open>Inference orchestrator\<close>
























subsection \<open>Long inputs: overlapping windows\<close>

text \<open>\<open>String(n)\<close> for an integer.\<close>

function showNat :: "nat \<Rightarrow> jsstring" where
  "showNat n = (if n < 10 then [48 + n] else showNat (n div 10) @ [48 + n mod 10])"
  by pat_completeness auto
termination
  by (relation "measure id") auto

declare showNat.simps [simp del]

definition showInt :: "int \<Rightarrow> jsstring" where
  "showInt i = (if i < 0 then 45 # showNat (nat (- i)) else showNat (nat i))"

text \<open>\<open>s.indexOf(w, from)\<close>: the first index at or after \<open>from\<close> where \<open>w\<close> occurs, \<open>-1\<close> when
  there is none; a negative \<open>from\<close> counts as 0 and one beyond the end as the length.\<close>

function indexOfAt :: "jsstring \<Rightarrow> jsstring \<Rightarrow> nat \<Rightarrow> int" where
  "indexOfAt s w p =
     (if p + length w \<le> length s
      then (if take (length w) (drop p s) = w then int p else indexOfAt s w (p + 1))
      else - 1)"
  by pat_completeness auto
termination
  by (relation "measure (\<lambda>(s, w, p). Suc (length s) - p)") auto

declare indexOfAt.simps [simp del]

definition indexOf :: "jsstring \<Rightarrow> jsstring \<Rightarrow> int \<Rightarrow> int" where
  "indexOf s w from = indexOfAt s w (min (nat (max 0 from)) (length s))"

text \<open>\<open>text.indexOf(chunkWords[0], i > 0 ? text.indexOf(words[i - 1]) : 0)\<close>, where
  \<open>chunkWords[0]\<close> is \<open>words[i]\<close>.\<close>

definition chunkStartChar :: "jsstring \<Rightarrow> jsstring list \<Rightarrow> nat \<Rightarrow> int" where
  "chunkStartChar text words i =
     indexOf text (words ! i) (if i > 0 then indexOf text (words ! (i - 1)) 0 else 0)"

text \<open>The loop over the entities of one window: shift, then keep the entity unless its key
  \<open>`${start}-${end}-${label}`\<close> was seen.\<close>

definition spanKey :: "entity \<Rightarrow> jsstring" where
  "spanKey e = showInt (e_start e) @ [45] @ showInt (e_end e) @ [45] @ e_label e"

definition addChunkEntity :: "int \<Rightarrow> entity \<Rightarrow> entity list \<times> jsstring list \<Rightarrow> entity list \<times> jsstring list" where
  "addChunkEntity startChar entity acc =
     (case acc of (allEntities, seenSpans) \<Rightarrow>
        (let adjustedEntity = entity \<lparr> e_start := e_start entity + startChar, e_end := e_end entity + startChar \<rparr>;
             key = spanKey adjustedEntity
         in if key \<in> set seenSpans then (allEntities, seenSpans)
            else (allEntities @ [adjustedEntity], seenSpans @ [key])))"

definition OVERLAP :: nat where
  "OVERLAP = 50"

text \<open>The loop \<open>for (let i = 0; i < words.length; i += chunkSize - OVERLAP)\<close>; \<open>infer\<close> is
  \<open>runInference\<close> on the window's text. \<open>None\<close> is a loop that does not end.\<close>

partial_function (option) chunkLoop ::
  "(jsstring \<Rightarrow> entity list result) \<Rightarrow> jsstring \<Rightarrow> jsstring list \<Rightarrow> nat \<Rightarrow> nat
     \<Rightarrow> entity list \<times> jsstring list \<Rightarrow> (js_error + entity list) option" where
  "chunkLoop infer text words chunkSize i acc =
     (if i < length words
      then (let chunkWords = take chunkSize (drop i words);
                chunkText = joinWith [32] chunkWords;
                startChar = chunkStartChar text words i
            in case infer chunkText of
                 None \<Rightarrow> None
               | Some (Inl e) \<Rightarrow> Some (Inl e)
               | Some (Inr entities) \<Rightarrow>
                   chunkLoop infer text words chunkSize (i + (chunkSize - OVERLAP))
                     (fold (addChunkEntity startChar) entities acc))
      else Some (Inr (sort_key e_start (fst acc))))"



subsection \<open>Texts of single-spaced words\<close>

definition plainWord :: "jsstring \<Rightarrow> bool" where
  "plainWord w \<longleftrightarrow> w \<noteq> [] \<and> list_all (\<lambda>c. \<not> isSpace c) w"

lemma joinWith_Cons: "joinWith sep (x # xs) = x @ (if xs = [] then [] else sep @ joinWith sep xs)"
  by (cases xs) simp_all

lemma splitWsAcc_word:
  "list_all (\<lambda>c. \<not> isSpace c) w \<Longrightarrow> splitWsAcc acc (w @ rest) = splitWsAcc (rev w @ acc) rest"
  by (induction w arbitrary: acc) simp_all

lemma splitWsAcc_join:
  "ws \<noteq> [] \<Longrightarrow> list_all plainWord ws \<Longrightarrow> splitWsAcc acc (joinWith [32] ws) = (rev acc @ hd ws) # tl ws"
proof (induction ws arbitrary: acc)
  case Nil
  then show ?case by simp
next
  case (Cons w ws)
  have w: "list_all (\<lambda>c. \<not> isSpace c) w" using Cons.prems by (simp add: plainWord_def)
  show ?case
  proof (cases ws)
    case Nil
    then show ?thesis using splitWsAcc_word [OF w, of acc "[]"] by simp
  next
    case (Cons w' ws')
    have w': "plainWord w'" using Cons.prems Cons \<open>list_all plainWord (w # ws)\<close> by simp
    then obtain c cs where c: "w' = c # cs" "\<not> isSpace c"
      by (cases w') (auto simp: plainWord_def)
    have j: "joinWith [32] ws = c # (cs @ (if ws' = [] then [] else [32] @ joinWith [32] ws'))"
      using Cons c by (simp add: joinWith_Cons)
    have sp: "isSpace 32" by (simp add: isSpace_def)
    have "splitWsAcc acc (joinWith [32] (w # ws)) = splitWsAcc (rev w @ acc) ([32] @ joinWith [32] ws)"
      using splitWsAcc_word [OF w, of acc "[32] @ joinWith [32] ws"] Cons by (simp add: joinWith_Cons)
    also have "\<dots> = rev (rev w @ acc) # splitWsAcc [] (joinWith [32] ws)"
      using sp j c by simp
    also have "\<dots> = (rev acc @ w) # ws"
      using Cons.IH [of "[]"] Cons.prems Cons by simp
    finally show ?thesis by simp
  qed
qed

lemma splitWs_join: "ws \<noteq> [] \<Longrightarrow> list_all plainWord ws \<Longrightarrow> splitWs (joinWith [32] ws) = ws"
  using splitWsAcc_join [of ws "[]"] by (simp add: splitWs_def)

lemma indexOf_prefix: "indexOf (w @ rest) w 0 = 0"
  by (simp add: indexOf_def) (subst indexOfAt.simps, simp)

lemma indexOfAt_char:
  "p \<le> q \<Longrightarrow> q < length s \<Longrightarrow> s ! q = c \<Longrightarrow> (\<forall>k. p \<le> k \<and> k < q \<longrightarrow> s ! k \<noteq> c) \<Longrightarrow>
     indexOfAt s [c] p = int q"
proof (induction "q - p" arbitrary: p)
  case 0
  then have pq: "p = q" by simp
  have "take (Suc 0) (drop q s) = [s ! q]" using 0
    by (simp add: take_Suc_conv_app_nth hd_drop_conv_nth)
  then have "indexOfAt s [c] q = int q"
    using 0 by (subst indexOfAt.simps) simp
  then show ?case using pq by simp
next
  case (Suc d)
  then have lt: "p < q" by simp
  then have ne: "s ! p \<noteq> c" using Suc.prems by simp
  have "take (Suc 0) (drop p s) = [s ! p]" using lt Suc.prems
    by (simp add: take_Suc_conv_app_nth hd_drop_conv_nth)
  then have "indexOfAt s [c] p = indexOfAt s [c] (p + 1)"
    using ne lt Suc.prems by (subst indexOfAt.simps) simp
  moreover have "indexOfAt s [c] (p + 1) = int q"
    using Suc.hyps(1) [of "p + 1"] Suc.hyps(2) Suc.prems lt by simp
  ultimately show ?case by simp
qed

lemma joinWith_replicate:
  "ys \<noteq> [] \<Longrightarrow> joinWith sep (replicate n w @ ys) = concat (replicate n (w @ sep)) @ joinWith sep ys"
  by (induction n) (simp_all add: joinWith_Cons)

subsection \<open>A long text whose words repeat\<close>

text \<open>201 single-spaced words: 151 times "a", then "John", then 49 times "a". The name is at
  characters 302 to 306.\<close>

definition repeatWords :: "jsstring list" where
  "repeatWords = replicate 151 (js ''a'') @ [js ''John''] @ replicate 49 (js ''a'')"

definition repeatText :: jsstring where
  "repeatText = joinWith [32] repeatWords"

lemma replicate_front2: "replicate 151 x = x # x # replicate 149 x"
proof -
  have "replicate (2 + 149) x = replicate 2 x @ replicate 149 x" by (rule replicate_add)
  then show ?thesis by (simp add: numeral_2_eq_2)
qed

lemma replicate_split150: "replicate 151 x = replicate 150 x @ [x]"
proof -
  have "replicate (150 + 1) x = replicate 150 x @ replicate 1 x" by (rule replicate_add)
  then show ?thesis by simp
qed

lemma plainWord_examples: "plainWord (js ''a'')" "plainWord (js ''John'')"
  by (simp_all add: plainWord_def js_def isSpace_def)

lemma repeatWords_plain: "list_all plainWord repeatWords"
proof -
  have "\<forall>w \<in> set repeatWords. plainWord w"
    using plainWord_examples by (auto simp: repeatWords_def)
  then show ?thesis by (simp add: list_all_iff)
qed

lemma repeatText_words: "splitWs repeatText = repeatWords"
  unfolding repeatText_def
proof (rule splitWs_join)
  show "repeatWords \<noteq> []" by (simp add: repeatWords_def)
  show "list_all plainWord repeatWords" by (rule repeatWords_plain)
qed

lemma repeatWords_length: "length repeatWords = 201"
  by (simp add: repeatWords_def)

lemma repeatWords_window2: "take 200 (drop 150 repeatWords) = js ''a'' # js ''John'' # replicate 49 (js ''a'')"
  by (simp add: repeatWords_def)

lemma repeatWords_window1: "take 200 (drop 0 repeatWords) = js ''a'' # js ''a'' # replicate 149 (js ''a'') @ js ''John'' # replicate 48 (js ''a'')"
  by (simp add: repeatWords_def replicate_front2)

lemma repeatText_prefix:
  "repeatText = concat (replicate 151 (js ''a'' @ [32])) @ joinWith [32] (js ''John'' # replicate 49 (js ''a''))"
  unfolding repeatText_def repeatWords_def
  using joinWith_replicate [of "[js ''John''] @ replicate 49 (js ''a'')" "[32]" 151 "js ''a''"] by simp

lemma repeatText_front: "\<exists>rest. repeatText = js ''a a a '' @ rest"
proof -
  have "replicate (3 + 148) (js ''a'' @ [32]) = replicate 3 (js ''a'' @ [32]) @ replicate 148 (js ''a'' @ [32])"
    by (rule replicate_add)
  then have "concat (replicate 151 (js ''a'' @ [32])) = js ''a a a '' @ concat (replicate 148 (js ''a'' @ [32]))"
    by (simp add: numeral_3_eq_3 js_def)
  then have "repeatText = js ''a a a '' @ (concat (replicate 148 (js ''a'' @ [32])) @ joinWith [32] (js ''John'' # replicate 49 (js ''a'')))"
    by (subst repeatText_prefix) simp
  then show ?thesis by blast
qed

lemma repeatText_start: "\<exists>rest. repeatText = js ''a'' @ rest"
  using repeatText_front by (auto simp: js_def)

lemma repeatWords_nth: "repeatWords ! 0 = js ''a''" "repeatWords ! 149 = js ''a''" "repeatWords ! 150 = js ''a''"
  by (simp_all add: repeatWords_def nth_append)

lemma repeatText_offset0: "chunkStartChar repeatText repeatWords 0 = 0"
proof -
  obtain rest where "repeatText = js ''a'' @ rest" using repeatText_start by blast
  then show ?thesis using indexOf_prefix [of "js ''a''" rest]
    by (simp add: chunkStartChar_def repeatWords_nth)
qed

lemma repeatText_offset150: "chunkStartChar repeatText repeatWords 150 = 0"
proof -
  obtain rest where "repeatText = js ''a'' @ rest" using repeatText_start by blast
  then show ?thesis using indexOf_prefix [of "js ''a''" rest]
    by (simp add: chunkStartChar_def repeatWords_nth)
qed

lemma repeatText_window2_at_300:
  "drop 300 repeatText = joinWith [32] (take 200 (drop 150 repeatWords))"
proof -
  define X where "X = concat (replicate 150 (js ''a'' @ [32]))"
  define Y where "Y = joinWith [32] (js ''a'' # js ''John'' # replicate 49 (js ''a''))"
  have "repeatWords = replicate 150 (js ''a'') @ (js ''a'' # js ''John'' # replicate 49 (js ''a''))"
    by (simp add: repeatWords_def replicate_split150)
  then have t: "repeatText = X @ Y"
    unfolding repeatText_def X_def Y_def
    using joinWith_replicate [of "js ''a'' # js ''John'' # replicate 49 (js ''a'')" "[32]" 150 "js ''a''"]
    by simp
  have "length X = 300"
    by (simp add: X_def length_concat js_def sum_list_replicate)
  then have "drop 300 (X @ Y) = Y" by simp
  then have "drop 300 repeatText = Y" by (simp only: t)
  then show ?thesis by (simp only: repeatWords_window2 Y_def)
qed

text \<open>An inference that finds the name where it stands in the window's text, as a model that
  knows the name does: at characters 2 to 6, or at 302 to 306.\<close>

definition johnAt :: "int \<Rightarrow> int \<Rightarrow> entity" where
  "johnAt a b = \<lparr> e_text = js ''John'', e_label = js ''person'', e_start = a, e_end = b, e_score = 9 / 10 \<rparr>"

definition nameInference :: "jsstring \<Rightarrow> entity list result" where
  "nameInference chunkText =
     Some (Inr (if slice chunkText 2 6 = js ''John'' then [johnAt 2 6]
                else if slice chunkText 302 306 = js ''John'' then [johnAt 302 306]
                else []))"

lemma repeat_window1_text:
  "joinWith [32] (take 200 (drop 0 repeatWords))
     = js ''a a a '' @ concat (replicate 148 (js ''a'' @ [32])) @ js ''John'' @ [32] @ joinWith [32] (replicate 48 (js ''a''))"
proof -
  have r: "replicate (3 + 148) (js ''a'' @ [32]) = replicate 3 (js ''a'' @ [32]) @ replicate 148 (js ''a'' @ [32])"
    by (rule replicate_add)
  have "take 200 (drop 0 repeatWords) = replicate 151 (js ''a'') @ (js ''John'' # replicate 48 (js ''a''))"
    by (simp add: repeatWords_def)
  then have "joinWith [32] (take 200 (drop 0 repeatWords))
      = concat (replicate 151 (js ''a'' @ [32])) @ joinWith [32] (js ''John'' # replicate 48 (js ''a''))"
    using joinWith_replicate [of "js ''John'' # replicate 48 (js ''a'')" "[32]" 151 "js ''a''"] by simp
  then show ?thesis using r by (simp add: numeral_3_eq_3 js_def joinWith_Cons)
qed

lemma repeat_window1_infer:
  "nameInference (joinWith [32] (take 200 (drop 0 repeatWords))) = Some (Inr [johnAt 302 306])"
proof -
  define X where "X = js ''a a a '' @ concat (replicate 148 (js ''a'' @ [32]))"
  define Y where "Y = [32] @ joinWith [32] (replicate 48 (js ''a''))"
  have t: "joinWith [32] (take 200 (drop 0 repeatWords)) = X @ js ''John'' @ Y"
    by (simp only: repeat_window1_text X_def Y_def append_assoc)
  have l: "length X = 302" by (simp add: X_def length_concat js_def sum_list_replicate)
  have a: "slice (X @ js ''John'' @ Y) 302 306 = js ''John''"
    using l by (simp add: slice_def js_def)
  have "\<exists>r. X = js ''a a a '' @ r" by (simp add: X_def)
  then obtain r where "X = js ''a a a '' @ r" by blast
  then have b: "slice (X @ js ''John'' @ Y) 2 6 \<noteq> js ''John''"
    by (simp add: slice_def js_def)
  show ?thesis unfolding t nameInference_def using a b by simp
qed

lemma repeat_window2_infer:
  "nameInference (joinWith [32] (take 200 (drop 150 repeatWords))) = Some (Inr [johnAt 2 6])"
  by (simp add: repeatWords_window2 nameInference_def joinWith_Cons slice_def js_def)

lemma showNat_digit: "n < 10 \<Longrightarrow> showNat n = [48 + n]"
  by (subst showNat.simps) simp

lemma showNat_more: "10 \<le> n \<Longrightarrow> showNat n = showNat (n div 10) @ [48 + n mod 10]"
  by (subst showNat.simps) simp

lemma repeat_keys:
  "spanKey (johnAt 302 306) = js ''302-306-person''"
  "spanKey (johnAt 2 6) = js ''2-6-person''"
  by (simp_all add: spanKey_def johnAt_def showInt_def showNat_more showNat_digit js_def)

lemma slice_repeatText: "slice repeatText 2 6 = js ''a a ''"
proof -
  obtain rest where r: "repeatText = js ''a a a '' @ rest" using repeatText_front by blast
  show ?thesis unfolding r by (simp add: slice_def js_def)
qed

text \<open>
  Claim C3, at a failing input: the text of 201 words "a ... a John a ... a" goes through the
  chunked path; the window from word 150 starts at character 300, the code takes 0 for it, and
  the name found at characters 2 to 6 of that window comes out as an entity with \<open>start = 2\<close>,
  \<open>end = 6\<close> and text "John", while \<open>text.slice(2, 6)\<close> is "a a ".
\<close>

theorem chunked_entity_text_differs:
  "length (splitWs repeatText) = 201
   \<and> chunkLoop nameInference repeatText (splitWs repeatText) 200 0 ([], [])
       = Some (Inr [johnAt 2 6, johnAt 302 306])
   \<and> e_text (johnAt 2 6) = js ''John''
   \<and> slice repeatText 2 6 = js ''a a ''"
proof -
  have s1: "fold (addChunkEntity 0) [johnAt 302 306] ([], []) = ([johnAt 302 306], [js ''302-306-person''])"
    using repeat_keys by (simp add: addChunkEntity_def Let_def johnAt_def)
  have s2: "fold (addChunkEntity 0) [johnAt 2 6] ([johnAt 302 306], [js ''302-306-person''])
      = ([johnAt 302 306, johnAt 2 6], [js ''302-306-person'', js ''2-6-person''])"
    using repeat_keys by (simp add: addChunkEntity_def Let_def johnAt_def js_def)
  have l3: "chunkLoop nameInference repeatText repeatWords 200 300
              ([johnAt 302 306, johnAt 2 6], [js ''302-306-person'', js ''2-6-person''])
            = Some (Inr [johnAt 2 6, johnAt 302 306])"
    by (subst chunkLoop.simps) (simp add: repeatWords_length johnAt_def)
  have n2: "150 + (200 - OVERLAP) = 300" and n1: "0 + (200 - OVERLAP) = 150"
    by (simp_all add: OVERLAP_def)
  have c2: "(150::nat) < length repeatWords" and c1: "(0::nat) < length repeatWords"
    by (simp_all add: repeatWords_length)
  have l2: "chunkLoop nameInference repeatText repeatWords 200 150 ([johnAt 302 306], [js ''302-306-person''])
            = Some (Inr [johnAt 2 6, johnAt 302 306])"
    by (subst chunkLoop.simps)
       (simp only: c2 if_True Let_def repeat_window2_infer repeatText_offset150 s2 l3 n2
          option.case sum.case)
  have l1: "chunkLoop nameInference repeatText repeatWords 200 0 ([], [])
            = Some (Inr [johnAt 2 6, johnAt 302 306])"
    by (subst chunkLoop.simps)
       (simp only: c1 if_True Let_def repeat_window1_infer repeatText_offset0 s1 l2 n1
          option.case sum.case)
  show ?thesis
    using l1 slice_repeatText by (simp add: repeatText_words repeatWords_length johnAt_def)
qed

text \<open>
  Claim C6, at a failing input: in the same text the window from word 150 is the text from
  character 300 on, and the offset the code computes for it is 0, the first place where the word
  "a" occurs.
\<close>

theorem chunk_offset_of_repeated_word:
  "length (splitWs repeatText) = 201
   \<and> drop 300 repeatText = joinWith [32] (take 200 (drop 150 (splitWs repeatText)))
   \<and> chunkStartChar repeatText (splitWs repeatText) 150 = 0"
  by (simp only: repeatText_words repeatWords_length repeatText_window2_at_300 repeatText_offset150)

subsection \<open>A long text with a name across the edge of the first window\<close>

text \<open>201 single-spaced words: 149 times "a", then "b", "c", 48 times "d", then "John" and
  "Smith". "John" is word 199, the last of the first window, at characters 398 to 402.\<close>

definition overlapWords :: "jsstring list" where
  "overlapWords = replicate 149 (js ''a'') @ [js ''b'', js ''c''] @ replicate 48 (js ''d'') @ [js ''John'', js ''Smith'']"

definition overlapText :: jsstring where
  "overlapText = joinWith [32] overlapWords"

definition nameAt :: "string \<Rightarrow> int \<Rightarrow> int \<Rightarrow> entity" where
  "nameAt s a b = \<lparr> e_text = js s, e_label = js ''person'', e_start = a, e_end = b, e_score = 9 / 10 \<rparr>"

text \<open>An inference that finds the full name where the window holds it, and the first name
  where the window ends with it.\<close>

definition fullNameInference :: "jsstring \<Rightarrow> entity list result" where
  "fullNameInference chunkText =
     Some (Inr (if slice chunkText 98 108 = js ''John Smith'' then [nameAt ''John Smith'' 98 108]
                else if slice chunkText 398 402 = js ''John'' then [nameAt ''John'' 398 402]
                else []))"

lemma overlapWords_plain: "list_all plainWord overlapWords"
proof -
  have "plainWord (js ''a'')" "plainWord (js ''b'')" "plainWord (js ''c'')" "plainWord (js ''d'')"
    "plainWord (js ''John'')" "plainWord (js ''Smith'')"
    by (simp_all add: plainWord_def js_def isSpace_def)
  then have "\<forall>w \<in> set overlapWords. plainWord w" by (auto simp: overlapWords_def)
  then show ?thesis by (simp add: list_all_iff)
qed

lemma overlapText_words: "splitWs overlapText = overlapWords"
  unfolding overlapText_def
proof (rule splitWs_join)
  show "overlapWords \<noteq> []" by (simp add: overlapWords_def)
  show "list_all plainWord overlapWords" by (rule overlapWords_plain)
qed

lemma overlapWords_length: "length overlapWords = 201"
  by (simp add: overlapWords_def)

lemma overlapWords_nth:
  "overlapWords ! 0 = js ''a''" "overlapWords ! 149 = js ''b''" "overlapWords ! 150 = js ''c''"
  by (simp_all add: overlapWords_def nth_append)

definition aPrefix :: jsstring where
  "aPrefix = concat (replicate 149 (js ''a'' @ [32]))"

definition dRun :: jsstring where
  "dRun = concat (replicate 48 (js ''d'' @ [32]))"

lemma aPrefix_length: "length aPrefix = 298"
  by (simp add: aPrefix_def length_concat js_def sum_list_replicate)

lemma dRun_length: "length dRun = 96"
  by (simp add: dRun_def length_concat js_def sum_list_replicate)

lemma aPrefix_chars: "k < 298 \<Longrightarrow> aPrefix ! k = 97 \<or> aPrefix ! k = 32"
proof -
  assume "k < 298"
  then have "aPrefix ! k \<in> set aPrefix" using aPrefix_length by simp
  then show ?thesis by (auto simp: aPrefix_def js_def split: if_splits)
qed

lemma overlapText_parts: "overlapText = aPrefix @ js ''b c '' @ dRun @ js ''John Smith''"
proof -
  have "joinWith [32] (replicate 48 (js ''d'') @ [js ''John'', js ''Smith'']) = dRun @ js ''John Smith''"
    using joinWith_replicate [of "[js ''John'', js ''Smith'']" "[32]" 48 "js ''d''"]
    by (simp add: dRun_def js_def)
  then have "joinWith [32] ([js ''b'', js ''c''] @ replicate 48 (js ''d'') @ [js ''John'', js ''Smith''])
      = js ''b c '' @ dRun @ js ''John Smith''"
    by (simp add: joinWith_Cons js_def)
  then show ?thesis
    unfolding overlapText_def overlapWords_def aPrefix_def
    using joinWith_replicate [of "[js ''b'', js ''c''] @ replicate 48 (js ''d'') @ [js ''John'', js ''Smith'']" "[32]" 149 "js ''a''"]
    by simp
qed

lemma overlapText_offset0: "chunkStartChar overlapText overlapWords 0 = 0"
proof -
  have "replicate (1 + 148) (js ''a'' @ [32]) = replicate 1 (js ''a'' @ [32]) @ replicate 148 (js ''a'' @ [32])"
    by (rule replicate_add)
  then have a: "aPrefix = js ''a'' @ ([32] @ concat (replicate 148 (js ''a'' @ [32])))"
    by (simp add: aPrefix_def)
  have "overlapText = js ''a'' @ (([32] @ concat (replicate 148 (js ''a'' @ [32]))) @ js ''b c '' @ dRun @ js ''John Smith'')"
    unfolding overlapText_parts by (subst a) simp
  then have "indexOf overlapText (js ''a'') 0 = 0" by (metis indexOf_prefix)
  then show ?thesis by (simp add: chunkStartChar_def overlapWords_nth)
qed

lemma overlapText_nth:
  "k < 298 \<Longrightarrow> overlapText ! k = aPrefix ! k"
  "overlapText ! 298 = 98" "overlapText ! 299 = 32" "overlapText ! 300 = 99"
  "300 < length overlapText"
  by (simp_all add: overlapText_parts nth_append aPrefix_length js_def)

lemma overlapText_offset150: "chunkStartChar overlapText overlapWords 150 = 300"
proof -
  have b: "indexOfAt overlapText [98] 0 = int 298"
  proof (rule indexOfAt_char)
    show "(0::nat) \<le> 298" by simp
    show "298 < length overlapText" using overlapText_nth(5) by simp
    show "overlapText ! 298 = 98" by (rule overlapText_nth)
    show "\<forall>k. 0 \<le> k \<and> k < 298 \<longrightarrow> overlapText ! k \<noteq> 98"
      using overlapText_nth(1) aPrefix_chars by force
  qed
  have c: "indexOfAt overlapText [99] 298 = int 300"
  proof (rule indexOfAt_char)
    show "(298::nat) \<le> 300" by simp
    show "300 < length overlapText" by (rule overlapText_nth)
    show "overlapText ! 300 = 99" by (rule overlapText_nth)
    show "\<forall>k. 298 \<le> k \<and> k < 300 \<longrightarrow> overlapText ! k \<noteq> 99"
    proof (intro allI impI)
      fix k :: nat
      assume "298 \<le> k \<and> k < 300"
      then have "k = 298 \<or> k = 299" by arith
      then show "overlapText ! k \<noteq> 99" using overlapText_nth(2,3) by auto
    qed
  qed
  have l: "300 < length overlapText" by (rule overlapText_nth)
  have "indexOf overlapText (js ''b'') 0 = 298"
    using b by (simp add: indexOf_def js_def)
  moreover have "indexOf overlapText (js ''c'') 298 = 300"
    using c l by (simp add: indexOf_def js_def)
  ultimately show ?thesis by (simp add: chunkStartChar_def overlapWords_nth)
qed

lemma overlap_window1_infer:
  "fullNameInference (joinWith [32] (take 200 (drop 0 overlapWords))) = Some (Inr [nameAt ''John'' 398 402])"
proof -
  define X where "X = aPrefix @ js ''b c '' @ dRun"
  have "joinWith [32] (replicate 48 (js ''d'') @ [js ''John'']) = dRun @ js ''John''"
    using joinWith_replicate [of "[js ''John'']" "[32]" 48 "js ''d''"]
    by (simp add: dRun_def js_def)
  then have "joinWith [32] ([js ''b'', js ''c''] @ replicate 48 (js ''d'') @ [js ''John''])
      = js ''b c '' @ dRun @ js ''John''"
    by (simp add: joinWith_Cons js_def)
  moreover have "take 200 (drop 0 overlapWords)
      = replicate 149 (js ''a'') @ ([js ''b'', js ''c''] @ replicate 48 (js ''d'') @ [js ''John''])"
    by (simp add: overlapWords_def)
  ultimately have t: "joinWith [32] (take 200 (drop 0 overlapWords)) = X @ js ''John''"
    unfolding X_def aPrefix_def
    using joinWith_replicate [of "[js ''b'', js ''c''] @ replicate 48 (js ''d'') @ [js ''John'']" "[32]" 149 "js ''a''"]
    by simp
  have l: "length X = 398" by (simp add: X_def aPrefix_length dRun_length js_def)
  have a: "slice (X @ js ''John'') 398 402 = js ''John''" using l by (simp add: slice_def js_def)
  have "(X @ js ''John'') ! 98 = aPrefix ! 98"
    by (simp add: X_def nth_append aPrefix_length)
  then have "(X @ js ''John'') ! 98 \<noteq> 74" using aPrefix_chars [of 98] by auto
  moreover have "slice (X @ js ''John'') 98 108 ! 0 = (X @ js ''John'') ! 98"
    using l by (simp add: slice_def nth_append)
  ultimately have b: "slice (X @ js ''John'') 98 108 \<noteq> js ''John Smith''"
    by (auto simp: js_def)
  show ?thesis unfolding t fullNameInference_def using a b by simp
qed

lemma overlap_window2_infer:
  "fullNameInference (joinWith [32] (take 200 (drop 150 overlapWords))) = Some (Inr [nameAt ''John Smith'' 98 108])"
proof -
  have "take 200 (drop 150 overlapWords) = js ''c'' # (replicate 48 (js ''d'') @ [js ''John'', js ''Smith''])"
    by (simp add: overlapWords_def)
  moreover have "joinWith [32] (replicate 48 (js ''d'') @ [js ''John'', js ''Smith'']) = dRun @ js ''John Smith''"
    using joinWith_replicate [of "[js ''John'', js ''Smith'']" "[32]" 48 "js ''d''"]
    by (simp add: dRun_def js_def)
  ultimately have t: "joinWith [32] (take 200 (drop 150 overlapWords)) = (js ''c '' @ dRun) @ js ''John Smith''"
    by (simp add: joinWith_Cons js_def)
  have "length (js ''c '' @ dRun) = 98" by (simp add: dRun_length js_def)
  then have "slice ((js ''c '' @ dRun) @ js ''John Smith'') 98 108 = js ''John Smith''"
    by (simp add: slice_def js_def)
  then show ?thesis unfolding t fullNameInference_def by simp
qed

lemma overlap_keys:
  "spanKey (nameAt ''John'' 398 402) = js ''398-402-person''"
  "spanKey (nameAt ''John Smith'' 398 408) = js ''398-408-person''"
  by (simp_all add: spanKey_def nameAt_def showInt_def showNat_more showNat_digit js_def)

text \<open>
  Claim C2, at a failing input: the text of 201 words "a ... a b c d ... d John Smith" goes
  through the chunked path. The first window ends with "John", found at characters 398 to 402;
  the second window, at its right offset 300, holds "John Smith", found at 398 to 408. The
  keys differ, both entities are returned, and their ranges overlap.
\<close>

theorem chunked_entities_overlap:
  "length (splitWs overlapText) = 201
   \<and> chunkLoop fullNameInference overlapText (splitWs overlapText) 200 0 ([], [])
       = Some (Inr [nameAt ''John'' 398 402, nameAt ''John Smith'' 398 408])
   \<and> overlaps (nameAt ''John'' 398 402) (nameAt ''John Smith'' 398 408)"
proof -
  have s1: "fold (addChunkEntity 0) [nameAt ''John'' 398 402] ([], [])
      = ([nameAt ''John'' 398 402], [js ''398-402-person''])"
    using overlap_keys by (simp add: addChunkEntity_def Let_def nameAt_def)
  have "nameAt ''John Smith'' 98 108 \<lparr> e_start := 98 + 300, e_end := 108 + 300 \<rparr> = nameAt ''John Smith'' 398 408"
    by (simp add: nameAt_def)
  then have s2: "fold (addChunkEntity 300) [nameAt ''John Smith'' 98 108] ([nameAt ''John'' 398 402], [js ''398-402-person''])
      = ([nameAt ''John'' 398 402, nameAt ''John Smith'' 398 408], [js ''398-402-person'', js ''398-408-person''])"
    using overlap_keys by (simp add: addChunkEntity_def Let_def js_def) (simp add: nameAt_def)
  have n2: "150 + (200 - OVERLAP) = 300" and n1: "0 + (200 - OVERLAP) = 150"
    by (simp_all add: OVERLAP_def)
  have c2: "(150::nat) < length overlapWords" and c1: "(0::nat) < length overlapWords"
    by (simp_all add: overlapWords_length)
  have l3: "chunkLoop fullNameInference overlapText overlapWords 200 300
              ([nameAt ''John'' 398 402, nameAt ''John Smith'' 398 408], [js ''398-402-person'', js ''398-408-person''])
            = Some (Inr [nameAt ''John'' 398 402, nameAt ''John Smith'' 398 408])"
    by (subst chunkLoop.simps) (simp add: overlapWords_length nameAt_def)
  have l2: "chunkLoop fullNameInference overlapText overlapWords 200 150
              ([nameAt ''John'' 398 402], [js ''398-402-person''])
            = Some (Inr [nameAt ''John'' 398 402, nameAt ''John Smith'' 398 408])"
    by (subst chunkLoop.simps)
       (simp only: c2 if_True Let_def overlap_window2_infer overlapText_offset150 s2 l3 n2
          option.case sum.case)
  have l1: "chunkLoop fullNameInference overlapText overlapWords 200 0 ([], [])
            = Some (Inr [nameAt ''John'' 398 402, nameAt ''John Smith'' 398 408])"
    by (subst chunkLoop.simps)
       (simp only: c1 if_True Let_def overlap_window1_infer overlapText_offset0 s1 l2 n1
          option.case sum.case)
  show ?thesis
    using l1 by (simp add: overlapText_words overlapWords_length overlaps_def nameAt_def)
qed

subsection \<open>The default threshold\<close>





































end
